theory Spec2Isabelle
  imports Main "HOL-Library.Word" "HOL-Library.Sublist"
begin

section \<open>Machine types and configuration constants (GSM\_Utils.h)\<close>

text \<open>
  The target is the Arduino MKR GSM 1400 (SAMD21, 32-bit ARM): \<open>int\<close> is a signed and
  \<open>unsigned long\<close> an unsigned 32-bit integer. Timestamps are the readings of
  \<open>millis()\<close>, which wrap around at \<open>2 ^ 32\<close>; their arithmetic is word arithmetic.
\<close>

type_synonym ulong = "32 word"
type_synonym c_int = "32 word"

definition PINNUMBER :: string where "PINNUMBER = ''''"
definition GPRS_APN :: string where "GPRS_APN = ''zonginternet''"
definition GPRS_LOGIN :: string where "GPRS_LOGIN = ''''"
definition GPRS_PASSWORD :: string where "GPRS_PASSWORD = ''''"
definition THINGSPEAK_SERVER :: string where "THINGSPEAK_SERVER = ''api.thingspeak.com''"
definition THINGSPEAK_PORT :: int where "THINGSPEAK_PORT = 443"
definition WRITE_API_KEY :: string where "WRITE_API_KEY = ''POWWNFLAIARHZL10''"
definition CONNECTION_TIMEOUT :: ulong where "CONNECTION_TIMEOUT = 30000"

text \<open>\<open>println\<close> of the Arduino \<open>Print\<close> class appends a carriage return and a line feed.\<close>

definition CRLF :: string where "CRLF = [CHR 0x0D, CHR 0x0A]"

section \<open>The transport and the serial console as a trace of calls\<close>

text \<open>
  The modem (\<open>gsmAccess\<close>, \<open>gprs\<close>), the SSL client and the serial console are external.
  Every call the code makes to them is recorded, in order, as an event; what the
  environment answers to a call is a parameter of the function that makes the call.
\<close>

datatype event =
    SerialPrint string
  | GsmBegin string
  | AttachGPRS string string string
  | ClientConnect string int
  | ClientPrint string
  | ClientAvailable
  | ClientRead
  | ClientConnected
  | ClientStop

section \<open>NonBlockingDelay\<close>

record non_blocking_delay =
  startTime :: ulong
  duration :: ulong

text \<open>The constructor; \<open>now\<close> is the reading of \<open>millis()\<close>.\<close>

definition NonBlockingDelay :: "ulong \<Rightarrow> ulong \<Rightarrow> non_blocking_delay" where
  "NonBlockingDelay ms now = \<lparr>startTime = now, duration = ms\<rparr>"

definition isComplete :: "non_blocking_delay \<Rightarrow> ulong \<Rightarrow> bool" where
  "isComplete d now = (now - startTime d \<ge> duration d)"

definition reset :: "non_blocking_delay \<Rightarrow> ulong \<Rightarrow> ulong \<Rightarrow> non_blocking_delay" where
  "reset d now ms =
     (let d1 = d\<lparr>startTime := now\<rparr>
      in if ms > 0 then d1\<lparr>duration := ms\<rparr> else d1)"

section \<open>GSMConnection\<close>

record gsm_connection =
  isConnected :: bool
  lastConnectionAttempt :: ulong
  connectionTimeout :: ulong

definition GSMConnection :: gsm_connection where
  "GSMConnection = \<lparr>isConnected = False, lastConnectionAttempt = 0, connectionTimeout = 0\<rparr>"

text \<open>
  \<open>connect s currentTime gsm_ready gprs_ready\<close>: \<open>currentTime\<close> is what \<open>millis()\<close>
  returns, \<open>gsm_ready\<close> whether \<open>gsmAccess.begin(PINNUMBER)\<close> answers \<open>GSM_READY\<close>,
  \<open>gprs_ready\<close> whether \<open>gprs.attachGPRS(...)\<close> answers \<open>GPRS_READY\<close>. The result is
  the returned flag, the object after the call and the calls made.
\<close>

definition connect ::
  "gsm_connection \<Rightarrow> ulong \<Rightarrow> bool \<Rightarrow> bool \<Rightarrow> bool \<times> gsm_connection \<times> event list" where
  "connect s currentTime gsm_ready gprs_ready =
     (if isConnected s then (True, s, [])
      else if currentTime - lastConnectionAttempt s < 5000 then (False, s, [])
      else
        let s1 = s\<lparr>lastConnectionAttempt := currentTime,
                    connectionTimeout := currentTime + CONNECTION_TIMEOUT\<rparr>;
            ev1 = [SerialPrint (''Attempting GSM connection...'' @ CRLF), GsmBegin PINNUMBER]
        in if gsm_ready then
             (if gprs_ready then
                (True, s1\<lparr>isConnected := True\<rparr>,
                 ev1 @ [AttachGPRS GPRS_APN GPRS_LOGIN GPRS_PASSWORD,
                        SerialPrint (''GSM connection established successfully'' @ CRLF)])
              else
                (False, s1,
                 ev1 @ [AttachGPRS GPRS_APN GPRS_LOGIN GPRS_PASSWORD,
                        SerialPrint (''GSM connection failed - will retry later'' @ CRLF)]))
           else
             (False, s1, ev1 @ [SerialPrint (''GSM connection failed - will retry later'' @ CRLF)]))"

definition isReady :: "gsm_connection \<Rightarrow> ulong \<Rightarrow> bool" where
  "isReady s now = (isConnected s \<and> now < connectionTimeout s)"

definition disconnect :: "gsm_connection \<Rightarrow> gsm_connection \<times> event list" where
  "disconnect s =
     (if isConnected s
      then (s\<lparr>isConnected := False\<rparr>, [ClientStop, SerialPrint (''GSM connection closed'' @ CRLF)])
      else (s, []))"

text \<open>What the environment answers during one call of \<open>sendData\<close>.\<close>

record send_env =
  t_isReady :: ulong        \<comment> \<open>\<open>millis()\<close> read by \<open>isReady\<close>\<close>
  t_connect :: ulong        \<comment> \<open>\<open>millis()\<close> read by \<open>connect\<close>, if it reads it\<close>
  gsm_ready :: bool
  gprs_ready :: bool
  client_ok :: bool         \<comment> \<open>whether \<open>client.connect(server, port)\<close> succeeds\<close>

text \<open>The request written by \<open>sendData\<close> once the client is connected.\<close>

definition request_prints :: "string \<Rightarrow> string \<Rightarrow> event list" where
  "request_prints url method =
     [ClientPrint method, ClientPrint '' '', ClientPrint url,
      ClientPrint ('' HTTP/1.1'' @ CRLF),
      ClientPrint ''Host: '', ClientPrint (THINGSPEAK_SERVER @ CRLF),
      ClientPrint (''Connection: close'' @ CRLF),
      ClientPrint CRLF]"

definition sendData ::
  "gsm_connection \<Rightarrow> string \<Rightarrow> string \<Rightarrow> send_env \<Rightarrow> bool \<times> gsm_connection \<times> event list" where
  "sendData s url method env =
     (let (ok, s1, ev1) =
            (if \<not> isReady s (t_isReady env)
             then connect s (t_connect env) (gsm_ready env) (gprs_ready env)
             else (True, s, []))
      in if \<not> ok then (False, s1, ev1)
         else if client_ok env then
           (True, s1,
            ev1 @ ClientConnect THINGSPEAK_SERVER THINGSPEAK_PORT # request_prints url method)
         else
           (False, s1,
            ev1 @ [ClientConnect THINGSPEAK_SERVER THINGSPEAK_PORT,
                   SerialPrint (''Failed to connect to ThingSpeak server'' @ CRLF)]))"

text \<open>What the environment answers during one call of \<open>handleResponse\<close>.\<close>

record poll_env =
  avail_first :: bool       \<comment> \<open>\<open>client.available()\<close> is non-zero at the first test\<close>
  byte_read :: char         \<comment> \<open>what \<open>client.read()\<close> returns\<close>
  avail_second :: bool      \<comment> \<open>\<open>client.available()\<close> is non-zero at the second test\<close>
  still_connected :: bool   \<comment> \<open>\<open>client.connected()\<close>\<close>
  t_complete :: ulong       \<comment> \<open>\<open>millis()\<close> read by \<open>isComplete\<close> before this poll\<close>
  t_ready :: ulong          \<comment> \<open>\<open>millis()\<close> read by \<open>isReady\<close> after this poll\<close>

definition handleResponse :: "poll_env \<Rightarrow> event list" where
  "handleResponse p =
     (if avail_first p then [ClientAvailable, ClientRead, SerialPrint [byte_read p]]
      else [ClientAvailable])
     @ (if \<not> avail_second p
        then ClientAvailable # ClientConnected #
             (if \<not> still_connected p
              then [SerialPrint (CHR 0x0A # ''Server disconnected'' @ CRLF), ClientStop]
              else [])
        else [ClientAvailable])"

section \<open>Formatted output: \<open>snprintf\<close> with the format \<open>"%d "\<close>\<close>

datatype error = OutOfBounds | DivisionByZero | SignedOverflow

definition NUL :: char where "NUL = CHR 0x00"

text \<open>The character of a decimal digit: \<open>'0' + d\<close>.\<close>

definition digit_char :: "nat \<Rightarrow> char" where
  "digit_char d = ''0123456789'' ! d"

fun digits :: "nat \<Rightarrow> string" where
  "digits n = (if n < 10 then [digit_char n] else digits (n div 10) @ [digit_char (n mod 10)])"

declare digits.simps [simp del]

text \<open>The conversion \<open>%d\<close>: decimal, a minus sign for a negative value, no padding.\<close>

definition fmt_d :: "int \<Rightarrow> string" where
  "fmt_d i = (if i < 0 then CHR ''-'' # digits (nat (- i)) else digits (nat i))"

text \<open>The text that the format \<open>"%d "\<close> produces for one sample.\<close>

definition item :: "c_int \<Rightarrow> string" where
  "item v = fmt_d (sint v) @ '' ''"

text \<open>
  A destination is the list of its bytes, its length being its real capacity. A store
  outside it is undefined behaviour in C++, reported here as \<open>OutOfBounds\<close>.
\<close>

definition store :: "string \<Rightarrow> int \<Rightarrow> string \<Rightarrow> error + string" where
  "store buf pos bytes =
     (if 0 \<le> pos \<and> nat pos + length bytes \<le> length buf
      then Inr (take (nat pos) buf @ bytes @ drop (nat pos + length bytes) buf)
      else Inl OutOfBounds)"

text \<open>An \<open>int\<close> passed for a \<open>size_t\<close> parameter is converted modulo \<open>2 ^ 32\<close>.\<close>

definition size_t :: "int \<Rightarrow> nat" where
  "size_t i = nat (i mod 2 ^ 32)"

text \<open>
  \<open>snprintf(buf + pos, sz, "%d ", v)\<close>: at most \<open>sz - 1\<close> characters of the text are
  stored, followed by a terminator; the value returned is the length of the whole text,
  stored or not.
\<close>

definition snprintf_d :: "string \<Rightarrow> int \<Rightarrow> int \<Rightarrow> c_int \<Rightarrow> error + (string \<times> int)" where
  "snprintf_d buf pos sz v =
     (let s = item v;
          n = size_t sz;
          out = (if n = 0 then [] else take (n - 1) s @ [NUL])
      in case store buf pos out of
           Inl e \<Rightarrow> Inl e
         | Inr buf1 \<Rightarrow> Inr (buf1, int (length s)))"

section \<open>SensorBuffer\<close>

definition MAX_SAMPLES :: int where "MAX_SAMPLES = 500"

record sensor_buffer =
  samples :: "c_int list"
  sampleCount :: int
  currentIndex :: int

definition clear :: "sensor_buffer \<Rightarrow> unit \<times> sensor_buffer" where
  "clear b = ((), b\<lparr>currentIndex := 0, sampleCount := 0,
                     samples := replicate (nat MAX_SAMPLES) 0\<rparr>)"

text \<open>The constructor sets both counters to 0 and calls \<open>clear\<close> on the new object.\<close>

definition SensorBuffer :: sensor_buffer where
  "SensorBuffer = snd (clear \<lparr>samples = [], sampleCount = 0, currentIndex = 0\<rparr>)"

text \<open>
  \<open>addSample\<close> is a \<open>void\<close> method: what it returns is the unit value, next to the
  object after the call. A store at a negative index would be undefined behaviour.
\<close>

definition addSample :: "sensor_buffer \<Rightarrow> c_int \<Rightarrow> error + (unit \<times> sensor_buffer)" where
  "addSample b v =
     (if currentIndex b < MAX_SAMPLES then
        (if 0 \<le> currentIndex b \<and> nat (currentIndex b) < length (samples b)
         then Inr ((), b\<lparr>samples := (samples b)[nat (currentIndex b) := v],
                         currentIndex := currentIndex b + 1,
                         sampleCount := currentIndex b + 1\<rparr>)
         else Inl OutOfBounds)
      else Inr ((), b))"

definition getSampleCount :: "sensor_buffer \<Rightarrow> int" where
  "getSampleCount b = sampleCount b"

definition isFull :: "sensor_buffer \<Rightarrow> bool" where
  "isFull b = (currentIndex b \<ge> MAX_SAMPLES)"

text \<open>A caller that adds the values of a list one after the other.\<close>

fun addSamples :: "sensor_buffer \<Rightarrow> c_int list \<Rightarrow> error + sensor_buffer" where
  "addSamples b [] = Inr b"
| "addSamples b (v # vs) =
     (case addSample b v of Inl e \<Rightarrow> Inl e | Inr (u, b1) \<Rightarrow> addSamples b1 vs)"

definition sample_at :: "c_int list \<Rightarrow> int \<Rightarrow> error + c_int" where
  "sample_at smp i =
     (if 0 \<le> i \<and> nat i < length smp then Inr (smp ! nat i) else Inl OutOfBounds)"

text \<open>
  The loops of \<open>getDataAsString\<close> and of \<open>getDataAsChunks\<close> that print samples are the
  same loop up to their bounds:
  \<^verbatim>\<open>for (i = ...; i < endSample && pos < limit; i++) {
    int written = snprintf(buf + pos, cap - pos, "%d ", samples[i]);
    if (written > 0) pos += written;
  }\<close>
  with \<open>endSample = sampleCount\<close>, \<open>limit = maxLength - 10\<close>, \<open>cap = maxLength\<close> in the
  first, and \<open>limit = 190\<close>, \<open>cap = 200\<close> in the second.
\<close>

function print_samples ::
  "c_int list \<Rightarrow> int \<Rightarrow> int \<Rightarrow> int \<Rightarrow> int \<Rightarrow> int \<Rightarrow> string \<Rightarrow> error + (int \<times> string)" where
  "print_samples smp endSample limit cap i pos buf =
     (if i < endSample \<and> pos < limit then
        (case sample_at smp i of
           Inl e \<Rightarrow> Inl e
         | Inr v \<Rightarrow>
             (case snprintf_d buf pos (cap - pos) v of
                Inl e \<Rightarrow> Inl e
              | Inr (buf1, written) \<Rightarrow>
                  print_samples smp endSample limit cap (i + 1)
                    (if written > 0 then pos + written else pos) buf1))
      else Inr (pos, buf))"
  by pat_completeness auto
termination
  by (relation "measure (\<lambda>(smp, endSample, limit, cap, i, pos, buf). nat (endSample - i))") auto

declare print_samples.simps [simp del]

text \<open>
  The loop condition \<open>i < sampleCount && pos < maxLength - 10\<close> computes
  \<open>maxLength - 10\<close> as soon as there is a sample: for a \<open>maxLength\<close> within 10 of
  \<open>INT_MIN\<close> that is a signed overflow.
\<close>

definition getDataAsString :: "sensor_buffer \<Rightarrow> string \<Rightarrow> int \<Rightarrow> error + string" where
  "getDataAsString b buffer maxLength =
     (if 0 < sampleCount b \<and> maxLength - 10 < - (2 ^ 31) then Inl SignedOverflow
      else
        case print_samples (samples b) (sampleCount b) (maxLength - 10) maxLength 0 0 buffer of
          Inl e \<Rightarrow> Inl e
        | Inr (pos, buf1) \<Rightarrow> store buf1 pos [NUL])"

text \<open>
  Division of two \<open>int\<close>s in C++: undefined for a zero divisor and for
  \<open>INT_MIN / -1\<close>, truncated towards zero otherwise.
\<close>

definition c_div :: "int \<Rightarrow> int \<Rightarrow> error + int" where
  "c_div a b =
     (if b = 0 then Inl DivisionByZero
      else if a = - (2 ^ 31) \<and> b = - 1 then Inl SignedOverflow
      else Inr (sgn a * sgn b * (\<bar>a\<bar> div \<bar>b\<bar>)))"

text \<open>The first two statements after \<open>chunkCount = 0\<close> in \<open>getDataAsChunks\<close>.\<close>

definition samplesPerChunk_of :: "int \<Rightarrow> int \<Rightarrow> error + int" where
  "samplesPerChunk_of count maxChunks =
     (case c_div count maxChunks of
        Inl e \<Rightarrow> Inl e
      | Inr q \<Rightarrow> Inr (if q = 0 then 1 else q))"

text \<open>
  The array \<open>char chunks[][200]\<close> is the list of its rows. A row that the caller did not
  provide is a row of no bytes: nothing can be stored in it.
\<close>

definition row_of :: "string list \<Rightarrow> int \<Rightarrow> string" where
  "row_of chunks chunk =
     (if 0 \<le> chunk \<and> nat chunk < length chunks then chunks ! nat chunk else [])"

function chunk_loop ::
  "sensor_buffer \<Rightarrow> int \<Rightarrow> int \<Rightarrow> int \<Rightarrow> int \<Rightarrow> string list \<Rightarrow> error + (string list \<times> int)" where
  "chunk_loop b maxChunks samplesPerChunk chunk chunkCount chunks =
     (if chunk < maxChunks \<and> chunkCount < maxChunks then
        (let startSample = chunk * samplesPerChunk;
             endSample = min (startSample + samplesPerChunk) (sampleCount b)
         in case print_samples (samples b) endSample 190 200 startSample 0
                   (row_of chunks chunk) of
              Inl e \<Rightarrow> Inl e
            | Inr (pos, row1) \<Rightarrow>
                if pos > 0 then
                  (case store row1 pos [NUL] of
                     Inl e \<Rightarrow> Inl e
                   | Inr row2 \<Rightarrow>
                       chunk_loop b maxChunks samplesPerChunk (chunk + 1) (chunkCount + 1)
                         (chunks[nat chunk := row2]))
                else
                  chunk_loop b maxChunks samplesPerChunk (chunk + 1) chunkCount
                    (chunks[nat chunk := row1]))
      else Inr (chunks, chunkCount))"
  by pat_completeness auto
termination
  by (relation "measure (\<lambda>(b, maxChunks, samplesPerChunk, chunk, chunkCount, chunks).
                  nat (maxChunks - chunk))") auto

declare chunk_loop.simps [simp del]

text \<open>The result is the array after the call and \<open>chunkCount\<close>.\<close>

definition getDataAsChunks ::
  "sensor_buffer \<Rightarrow> string list \<Rightarrow> int \<Rightarrow> error + (string list \<times> int)" where
  "getDataAsChunks b chunks maxChunks =
     (case samplesPerChunk_of (sampleCount b) maxChunks of
        Inl e \<Rightarrow> Inl e
      | Inr samplesPerChunk \<Rightarrow> chunk_loop b maxChunks samplesPerChunk 0 0 chunks)"

text \<open>The C string held by a row: its bytes up to the first terminator.\<close>

definition c_string :: "string \<Rightarrow> string" where
  "c_string row = takeWhile (\<lambda>c. c \<noteq> NUL) row"

section \<open>sendToThingSpeak\<close>

text \<open>
  The response loop of \<open>sendToThingSpeak\<close>:
  \<^verbatim>\<open>while (!responseDelay.isComplete()) { gsm.handleResponse(); if (!gsm.isReady()) break; }\<close>
  \<open>polls i\<close> is what the environment answers in round \<open>i\<close>. The loop ends only when
  the clock lets it, so the function is partial: \<open>None\<close> is a loop that never ends.
\<close>

partial_function (option) poll_loop ::
  "gsm_connection \<Rightarrow> non_blocking_delay \<Rightarrow> (nat \<Rightarrow> poll_env) \<Rightarrow> nat \<Rightarrow> event list
     \<Rightarrow> event list option" where
  "poll_loop gsm d polls i ev =
     (if isComplete d (t_complete (polls i)) then Some ev
      else let ev1 = ev @ handleResponse (polls i)
           in if \<not> isReady gsm (t_ready (polls i)) then Some ev1
              else poll_loop gsm d polls (i + 1) ev1)"

text \<open>
  \<open>snprintf(url, sizeof(url), "/update?api_key=%s&field%d=%s", ...)\<close> into \<open>char url[300]\<close>
  keeps at most 299 characters of the text.
\<close>

definition update_url :: "string \<Rightarrow> c_int \<Rightarrow> string" where
  "update_url data field =
     take 299 (''/update?api_key='' @ WRITE_API_KEY @ ''&field'' @ fmt_d (sint field)
               @ ''='' @ data)"

text \<open>
  \<open>t_start\<close> is the reading of \<open>millis()\<close> in the constructor of \<open>responseDelay\<close>. The
  result is the returned flag and the calls made, or \<open>None\<close> when the loop never ends.
\<close>

definition sendToThingSpeak ::
  "string \<Rightarrow> c_int \<Rightarrow> send_env \<Rightarrow> ulong \<Rightarrow> (nat \<Rightarrow> poll_env) \<Rightarrow> (bool \<times> event list) option" where
  "sendToThingSpeak data field env t_start polls =
     (let gsm = GSMConnection;
          url = update_url data field;
          (ok, gsm1, ev) = sendData gsm url ''GET'' env
      in if ok then
           (case poll_loop gsm1 (NonBlockingDelay 5000 t_start) polls 0 ev of
              None \<Rightarrow> None
            | Some ev1 \<Rightarrow> Some (True, ev1))
         else Some (False, ev))"

section \<open>Notions used to state the properties\<close>

text \<open>The bytes that a trace of calls writes to the client, in order.\<close>

fun client_bytes :: "event list \<Rightarrow> string" where
  "client_bytes [] = []"
| "client_bytes (ClientPrint s # evs) = s @ client_bytes evs"
| "client_bytes (e # evs) = client_bytes evs"

text \<open>
  The states a \<open>SensorBuffer\<close> object can be in: its fields are private, so these are
  the states that the constructor and the public methods that change it produce.
\<close>

inductive reachable :: "sensor_buffer \<Rightarrow> bool" where
  reach_new: "reachable SensorBuffer"
| reach_add: "reachable b \<Longrightarrow> addSample b v = Inr (u, b1) \<Longrightarrow> reachable b1"
| reach_clear: "reachable b \<Longrightarrow> reachable (snd (clear b))"

definition wf_buffer :: "sensor_buffer \<Rightarrow> bool" where
  "wf_buffer b =
     (length (samples b) = nat MAX_SAMPLES \<and> 0 \<le> currentIndex b
      \<and> currentIndex b \<le> MAX_SAMPLES \<and> sampleCount b = currentIndex b)"

text \<open>The samples a buffer holds, oldest first.\<close>

definition stored :: "sensor_buffer \<Rightarrow> c_int list" where
  "stored b = take (nat (sampleCount b)) (samples b)"

text \<open>
  Reading a text of decimal numbers that are each followed by a space back into
  samples: the inverse of the format \<open>"%d "\<close>.
\<close>

definition digit_val :: "char \<Rightarrow> nat" where
  "digit_val c = of_char c - 48"

definition parse_nat :: "string \<Rightarrow> nat" where
  "parse_nat s = foldl (\<lambda>a c. 10 * a + digit_val c) 0 s"

definition parse_d :: "string \<Rightarrow> int" where
  "parse_d s =
     (case s of
        [] \<Rightarrow> 0
      | c # cs \<Rightarrow> if c = CHR ''-'' then - int (parse_nat cs) else int (parse_nat s))"

fun split_items :: "string \<Rightarrow> string \<Rightarrow> string list" where
  "split_items acc [] = (if acc = [] then [] else [rev acc])"
| "split_items acc (c # cs) =
     (if c = CHR '' '' then rev acc # split_items [] cs else split_items (c # acc) cs)"

definition decode :: "string \<Rightarrow> c_int list" where
  "decode s = map (\<lambda>t. word_of_int (parse_d t)) (split_items [] s)"

text \<open>
  The samples of a list that the printing loop writes when it starts at position
  \<open>pos\<close>: it goes on as long as the position is below \<open>limit\<close>.
\<close>

fun printed :: "int \<Rightarrow> int \<Rightarrow> c_int list \<Rightarrow> c_int list" where
  "printed limit pos [] = []"
| "printed limit pos (v # vs) =
     (if pos < limit then v # printed limit (pos + int (length (item v))) vs else [])"

text \<open>The samples that \<open>getDataAsChunks\<close> assigns to chunk number \<open>c\<close>.\<close>

definition chunk_group :: "sensor_buffer \<Rightarrow> int \<Rightarrow> nat \<Rightarrow> c_int list" where
  "chunk_group b samplesPerChunk c =
     take (nat samplesPerChunk) (drop (c * nat samplesPerChunk) (stored b))"

text \<open>The samples at the indices from \<open>i\<close> up to, not including, \<open>e\<close>.\<close>

definition slice :: "c_int list \<Rightarrow> int \<Rightarrow> int \<Rightarrow> c_int list" where
  "slice smp i e = drop (nat i) (take (nat e) smp)"

text \<open>A sample whose text, with the space, has at most 10 characters.\<close>

definition narrow :: "c_int \<Rightarrow> bool" where
  "narrow v = (- 99999999 \<le> sint v \<and> sint v \<le> 999999999)"

section \<open>Example states and environments\<close>

text \<open>A buffer that holds 500 times the value 7.\<close>

definition full_buffer :: sensor_buffer where
  "full_buffer = \<lparr>samples = replicate 500 7, sampleCount = 500, currentIndex = 500\<rparr>"

text \<open>A buffer that holds the five values 10, 20, 30, 40, 50.\<close>

definition five_buffer :: sensor_buffer where
  "five_buffer = \<lparr>samples = [10, 20, 30, 40, 50] @ replicate 495 0, sampleCount = 5,
                   currentIndex = 5\<rparr>"

text \<open>The buffer after the 432 values 0, ..., 431 were added to a new buffer.\<close>

definition cycle_buffer :: sensor_buffer where
  "cycle_buffer = \<lparr>samples = map word_of_int [0..431] @ replicate 68 0, sampleCount = 432,
                    currentIndex = 432\<rparr>"

text \<open>The buffer after the value \<open>INT_MIN\<close> was added to a new buffer.\<close>

definition wide_buffer :: sensor_buffer where
  "wide_buffer = \<lparr>samples = (replicate 500 0)[0 := - 2147483648], sampleCount = 1,
                   currentIndex = 1\<rparr>"

text \<open>
  A buffer that holds a sample of 8 characters and 16 times \<open>INT_MIN\<close>, of 12
  characters.
\<close>

definition wide17_buffer :: sensor_buffer where
  "wide17_buffer = \<lparr>samples = 1234567 # replicate 16 (- 2147483648) @ replicate 483 0,
                     sampleCount = 17, currentIndex = 17\<rparr>"

text \<open>A destination array of two rows, and the array that a call leaves behind.\<close>

definition two_rows :: "string list" where
  "two_rows = replicate 2 (replicate 200 NUL)"

definition chunks_of :: "error + (string list \<times> int) \<Rightarrow> string list" where
  "chunks_of r = (case r of Inl e \<Rightarrow> [] | Inr (chunks1, chunkCount) \<Rightarrow> chunks1)"

definition cycle_chunks :: "string list" where
  "cycle_chunks = chunks_of (getDataAsChunks cycle_buffer two_rows 2)"

definition five_chunks :: "string list" where
  "five_chunks = chunks_of (getDataAsChunks five_buffer two_rows 2)"

text \<open>
  A server that never answers and stays connected, polled once a second from the
  clock reading 10000 on.
\<close>

definition quiet :: "nat \<Rightarrow> poll_env" where
  "quiet i = \<lparr>avail_first = False, byte_read = CHR 0x00, avail_second = False,
              still_connected = True, t_complete = 10000 + 1000 * of_nat i,
              t_ready = 10000 + 1000 * of_nat i\<rparr>"

text \<open>
  A manager that is still marked connected 4 seconds after its deadline, and an
  environment in which the modem no longer attaches but the client connects.
\<close>

definition expired_manager :: gsm_connection where
  "expired_manager = \<lparr>isConnected = True, lastConnectionAttempt = 6000,
                        connectionTimeout = 36000\<rparr>"

definition dead_modem :: send_env where
  "dead_modem = \<lparr>t_isReady = 40000, t_connect = 40000, gsm_ready = False, gprs_ready = False,
                 client_ok = True\<rparr>"

definition attach_ok :: send_env where
  "attach_ok = \<lparr>t_isReady = 9000, t_connect = 9000, gsm_ready = True, gprs_ready = True,
                client_ok = True\<rparr>"

section \<open>Properties of the timer gate\<close>

text \<open>
  Claim C10. \<open>reset\<close> with the argument 0 sets \<open>startTime\<close> to the current time and
  keeps the duration; with an argument above 0 it sets \<open>startTime\<close> to the current time
  and the duration to the argument; so a duration that is not zero is never zero
  after \<open>reset\<close>.
\<close>

theorem reset_keeps_or_sets_duration:
  "reset d now 0 = d\<lparr>startTime := now\<rparr>
   \<and> (ms > 0 \<longrightarrow> reset d now ms = \<lparr>startTime = now, duration = ms\<rparr>)
   \<and> (duration d \<noteq> 0 \<longrightarrow> duration (reset d now ms) \<noteq> 0)"
  by (auto simp: reset_def Let_def)

theorem reset_keeps_or_sets_duration_witness:
  "reset \<lparr>startTime = 7, duration = 1000\<rparr> 42 0 = \<lparr>startTime = 42, duration = 1000\<rparr>
   \<and> (250 :: ulong) > 0
   \<and> reset \<lparr>startTime = 7, duration = 1000\<rparr> 42 250 = \<lparr>startTime = 42, duration = 250\<rparr>
   \<and> duration \<lparr>startTime = 7, duration = 1000 :: ulong\<rparr> \<noteq> 0
   \<and> duration (reset \<lparr>startTime = 7, duration = 1000\<rparr> 42 250) \<noteq> 0"
  using reset_keeps_or_sets_duration [of "\<lparr>startTime = 7, duration = 1000\<rparr>" 42 250]
  by simp

section \<open>Properties of the connection manager\<close>

text \<open>
  Claim C7. \<open>isReady\<close> is false whenever the current time is at or past the stored
  \<open>connectionTimeout\<close>, connected or not; when it is true, the manager is connected and
  the current time is before \<open>connectionTimeout\<close>.
\<close>

theorem isReady_false_at_deadline:
  "(connectionTimeout s \<le> now \<longrightarrow> \<not> isReady s now)
   \<and> (isReady s now \<longrightarrow> isConnected s \<and> now < connectionTimeout s)"
  by (auto simp: isReady_def)

theorem isReady_false_at_deadline_witness:
  "connectionTimeout
     \<lparr>isConnected = True, lastConnectionAttempt = 6000, connectionTimeout = 36000\<rparr> \<le> 36000
   \<and> \<not> isReady
         \<lparr>isConnected = True, lastConnectionAttempt = 6000, connectionTimeout = 36000\<rparr> 36000
   \<and> isReady
         \<lparr>isConnected = True, lastConnectionAttempt = 6000, connectionTimeout = 36000\<rparr> 35999"
  using isReady_false_at_deadline
          [of "\<lparr>isConnected = True, lastConnectionAttempt = 6000, connectionTimeout = 36000\<rparr>"
              36000]
  by (simp add: isReady_def)

text \<open>
  As stated, the rate limit of \<open>connect\<close> does not hold for every pair of calls on a
  manager that is not connected: the interval is counted from the last attempt, not
  from the last call. On a new object a call at 3000 ms is refused without an attempt,
  and a call at 6000 ms, less than 5000 ms later, attempts the attach and moves both
  timestamps.
\<close>

theorem connect_second_call_attempts:
  "\<not> isConnected GSMConnection
   \<and> connect GSMConnection 3000 True True = (False, GSMConnection, [])
   \<and> (6000 - 3000 :: ulong) < 5000
   \<and> connect GSMConnection 6000 False False =
       (False, GSMConnection\<lparr>lastConnectionAttempt := 6000, connectionTimeout := 36000\<rparr>,
        [SerialPrint (''Attempting GSM connection...'' @ CRLF), GsmBegin PINNUMBER,
         SerialPrint (''GSM connection failed - will retry later'' @ CRLF)])"
  by (simp add: connect_def GSMConnection_def Let_def CONNECTION_TIMEOUT_def)

text \<open>
  Claim C4, amended. When a call of \<open>connect\<close> at time \<open>t1\<close> on a manager that is not
  connected makes an attempt (it is not refused by the rate limit) and the attempt
  fails, then a second call less than 5000 ms after it, in the 32-bit arithmetic of
  the clock, returns false, calls nothing and leaves the object as it is, and a
  call 5000 ms or more after it attempts the attach again.
\<close>

theorem connect_rate_limit_after_attempt:
  assumes "\<not> isConnected s"
    and "\<not> t1 - lastConnectionAttempt s < 5000"
    and "connect s t1 g1 p1 = (r1, s1, ev1)"
    and "\<not> isConnected s1"
  shows "lastConnectionAttempt s1 = t1
     \<and> (t2 - t1 < 5000 \<longrightarrow> connect s1 t2 g2 p2 = (False, s1, []))
     \<and> (5000 \<le> t3 - t1 \<longrightarrow>
          (\<exists>ev. connect s1 t3 g3 p3 =
                  (g3 \<and> p3,
                   s1\<lparr>lastConnectionAttempt := t3,
                      connectionTimeout := t3 + CONNECTION_TIMEOUT,
                      isConnected := g3 \<and> p3\<rparr>, ev)
                \<and> GsmBegin PINNUMBER \<in> set ev))"
proof -
  from assms have s1:
    "s1 = s\<lparr>lastConnectionAttempt := t1, connectionTimeout := t1 + CONNECTION_TIMEOUT\<rparr>"
    by (auto simp: connect_def Let_def split: if_splits)
  have a: "lastConnectionAttempt s1 = t1" by (simp add: s1)
  have nc: "\<not> isConnected s1" by fact
  have b: "t2 - t1 < 5000 \<longrightarrow> connect s1 t2 g2 p2 = (False, s1, [])"
    using nc a by (simp add: connect_def)
  have c: "5000 \<le> t3 - t1 \<longrightarrow>
          (\<exists>ev. connect s1 t3 g3 p3 =
                  (g3 \<and> p3,
                   s1\<lparr>lastConnectionAttempt := t3,
                      connectionTimeout := t3 + CONNECTION_TIMEOUT,
                      isConnected := g3 \<and> p3\<rparr>, ev)
                \<and> GsmBegin PINNUMBER \<in> set ev)"
    using nc a by (auto simp: connect_def Let_def not_less [symmetric])
  from a b c show ?thesis by blast
qed

theorem connect_rate_limit_after_attempt_witness:
  "\<not> isConnected GSMConnection
   \<and> \<not> (6000 :: ulong) - lastConnectionAttempt GSMConnection < 5000
   \<and> connect GSMConnection 6000 True False =
       (False, \<lparr>isConnected = False, lastConnectionAttempt = 6000, connectionTimeout = 36000\<rparr>,
        [SerialPrint (''Attempting GSM connection...'' @ CRLF), GsmBegin PINNUMBER,
         AttachGPRS GPRS_APN GPRS_LOGIN GPRS_PASSWORD,
         SerialPrint (''GSM connection failed - will retry later'' @ CRLF)])
   \<and> (8000 - 6000 :: ulong) < 5000
   \<and> connect \<lparr>isConnected = False, lastConnectionAttempt = 6000, connectionTimeout = 36000\<rparr>
        8000 True True
      = (False, \<lparr>isConnected = False, lastConnectionAttempt = 6000, connectionTimeout = 36000\<rparr>,
         [])
   \<and> (5000 :: ulong) \<le> 11000 - 6000
   \<and> fst (connect \<lparr>isConnected = False, lastConnectionAttempt = 6000, connectionTimeout = 36000\<rparr>
             11000 True True)"
proof -
  have h1: "\<not> isConnected GSMConnection" by (simp add: GSMConnection_def)
  have h2: "\<not> (6000 :: ulong) - lastConnectionAttempt GSMConnection < 5000"
    by (simp add: GSMConnection_def)
  have h3: "connect GSMConnection 6000 True False =
       (False, \<lparr>isConnected = False, lastConnectionAttempt = 6000, connectionTimeout = 36000\<rparr>,
        [SerialPrint (''Attempting GSM connection...'' @ CRLF), GsmBegin PINNUMBER,
         AttachGPRS GPRS_APN GPRS_LOGIN GPRS_PASSWORD,
         SerialPrint (''GSM connection failed - will retry later'' @ CRLF)])"
    by (simp add: connect_def GSMConnection_def Let_def CONNECTION_TIMEOUT_def)
  have h4: "\<not> isConnected
              \<lparr>isConnected = False, lastConnectionAttempt = 6000, connectionTimeout = 36000\<rparr>"
    by simp
  show ?thesis
    using h1 h2 h3
      connect_rate_limit_after_attempt [OF h1 h2 h3 h4, of 8000 True True 11000 True True]
    by auto
qed

lemma client_bytes_append: "client_bytes (xs @ ys) = client_bytes xs @ client_bytes ys"
  by (induction xs rule: client_bytes.induct) simp_all

lemma client_bytes_connect: "client_bytes (snd (snd (connect s t g p))) = []"
  by (simp add: connect_def Let_def)

text \<open>
  A manager that is not ready does not always get false from \<open>sendData\<close>: for one that
  is still marked connected after its deadline, \<open>connect\<close> returns true at once, nothing
  is attached, and \<open>sendData\<close> writes the request and returns true; the manager is as
  little ready afterwards as before.
\<close>

theorem sendData_true_while_not_ready:
  "\<not> isReady expired_manager 40000
   \<and> sendData expired_manager ''/update'' ''GET'' dead_modem =
       (True, expired_manager,
        [ClientConnect ''api.thingspeak.com'' 443,
         ClientPrint ''GET'', ClientPrint '' '', ClientPrint ''/update'',
         ClientPrint ('' HTTP/1.1'' @ [CHR 0x0D, CHR 0x0A]),
         ClientPrint ''Host: '', ClientPrint (''api.thingspeak.com'' @ [CHR 0x0D, CHR 0x0A]),
         ClientPrint (''Connection: close'' @ [CHR 0x0D, CHR 0x0A]),
         ClientPrint [CHR 0x0D, CHR 0x0A]])
   \<and> \<not> isReady (fst (snd (sendData expired_manager ''/update'' ''GET'' dead_modem))) 40001"
  by (simp add: sendData_def connect_def isReady_def expired_manager_def dead_modem_def
        request_prints_def THINGSPEAK_SERVER_def THINGSPEAK_PORT_def CRLF_def)

text \<open>
  Claim C6, amended. When \<open>sendData\<close> returns true, the client connected to
  \<open>api.thingspeak.com\<close> on port 443 and the calls end with that connect and the writes
  of the request: the bytes \<open>method\<close>, a space, \<open>url\<close>, \<open> HTTP/1.1\<close>, the header
  \<open>Host: api.thingspeak.com\<close>, the header \<open>Connection: close\<close> and an empty line, each
  line ended by CR LF. It never asks the client for input. A failed client connect
  gives false, and so does a \<open>connect\<close> that returns false for a manager that was not
  ready. A ready manager, and one that was not connected and for which \<open>connect\<close>
  succeeds, get true when the client connects.
\<close>

theorem sendData_true_only_if_request_written:
  "(fst (sendData s url method env) \<longrightarrow>
      client_ok env
      \<and> (isConnected s
          \<or> (5000 \<le> t_connect env - lastConnectionAttempt s \<and> gsm_ready env \<and> gprs_ready env))
      \<and> snd (snd (sendData s url method env)) =
           (if isReady s (t_isReady env) then []
            else snd (snd (connect s (t_connect env) (gsm_ready env) (gprs_ready env))))
           @ [ClientConnect ''api.thingspeak.com'' 443,
              ClientPrint method, ClientPrint '' '', ClientPrint url,
              ClientPrint ('' HTTP/1.1'' @ [CHR 0x0D, CHR 0x0A]),
              ClientPrint ''Host: '', ClientPrint (''api.thingspeak.com'' @ [CHR 0x0D, CHR 0x0A]),
              ClientPrint (''Connection: close'' @ [CHR 0x0D, CHR 0x0A]),
              ClientPrint [CHR 0x0D, CHR 0x0A]]
      \<and> client_bytes (snd (snd (sendData s url method env))) =
           method @ '' '' @ url @ '' HTTP/1.1'' @ [CHR 0x0D, CHR 0x0A]
           @ ''Host: api.thingspeak.com'' @ [CHR 0x0D, CHR 0x0A]
           @ ''Connection: close'' @ [CHR 0x0D, CHR 0x0A, CHR 0x0D, CHR 0x0A])
   \<and> (\<not> client_ok env \<longrightarrow> \<not> fst (sendData s url method env))
   \<and> (\<not> isReady s (t_isReady env)
        \<and> \<not> fst (connect s (t_connect env) (gsm_ready env) (gprs_ready env))
        \<longrightarrow> \<not> fst (sendData s url method env))
   \<and> ((isReady s (t_isReady env)
         \<or> (\<not> isConnected s
             \<and> fst (connect s (t_connect env) (gsm_ready env) (gprs_ready env))))
        \<and> client_ok env
        \<longrightarrow> fst (sendData s url method env))
   \<and> ClientAvailable \<notin> set (snd (snd (sendData s url method env)))
   \<and> ClientRead \<notin> set (snd (snd (sendData s url method env)))
   \<and> ClientConnected \<notin> set (snd (snd (sendData s url method env)))"
proof -
  let ?c = "connect s (t_connect env) (gsm_ready env) (gprs_ready env)"
  let ?r = "sendData s url method env"
  let ?req = "[ClientConnect ''api.thingspeak.com'' 443,
              ClientPrint method, ClientPrint '' '', ClientPrint url,
              ClientPrint ('' HTTP/1.1'' @ [CHR 0x0D, CHR 0x0A]),
              ClientPrint ''Host: '', ClientPrint (''api.thingspeak.com'' @ [CHR 0x0D, CHR 0x0A]),
              ClientPrint (''Connection: close'' @ [CHR 0x0D, CHR 0x0A]),
              ClientPrint [CHR 0x0D, CHR 0x0A]]"
  have res: "fst ?r = ((isReady s (t_isReady env) \<or> fst ?c) \<and> client_ok env)"
    by (auto simp: sendData_def Let_def split: prod.splits)
  have con: "fst ?c = (isConnected s
          \<or> (5000 \<le> t_connect env - lastConnectionAttempt s \<and> gsm_ready env \<and> gprs_ready env))"
    by (auto simp: connect_def Let_def not_less)
  have rdy: "isReady s (t_isReady env) \<longrightarrow> isConnected s" by (simp add: isReady_def)
  have evs: "fst ?r \<longrightarrow> snd (snd ?r) =
      (if isReady s (t_isReady env) then [] else snd (snd ?c)) @ ?req"
    by (auto simp: sendData_def Let_def request_prints_def THINGSPEAK_SERVER_def
          THINGSPEAK_PORT_def CRLF_def split: prod.splits)
  have byt: "fst ?r \<longrightarrow> client_bytes (snd (snd ?r)) =
           method @ '' '' @ url @ '' HTTP/1.1'' @ [CHR 0x0D, CHR 0x0A]
           @ ''Host: api.thingspeak.com'' @ [CHR 0x0D, CHR 0x0A]
           @ ''Connection: close'' @ [CHR 0x0D, CHR 0x0A, CHR 0x0D, CHR 0x0A]"
  proof
    assume "fst ?r"
    with evs have "snd (snd ?r) = (if isReady s (t_isReady env) then [] else snd (snd ?c)) @ ?req"
      by simp
    then show "client_bytes (snd (snd ?r)) =
           method @ '' '' @ url @ '' HTTP/1.1'' @ [CHR 0x0D, CHR 0x0A]
           @ ''Host: api.thingspeak.com'' @ [CHR 0x0D, CHR 0x0A]
           @ ''Connection: close'' @ [CHR 0x0D, CHR 0x0A, CHR 0x0D, CHR 0x0A]"
      by (simp add: client_bytes_append client_bytes_connect)
  qed
  have nor: "ClientAvailable \<notin> set (snd (snd ?r)) \<and> ClientRead \<notin> set (snd (snd ?r))
      \<and> ClientConnected \<notin> set (snd (snd ?r))"
    by (auto simp: sendData_def connect_def Let_def request_prints_def
           split: prod.splits if_splits)
  from res con rdy evs byt nor show ?thesis by blast
qed

theorem sendData_true_only_if_request_written_witness:
  "sendData GSMConnection ''/update'' ''GET'' attach_ok =
     (True, \<lparr>isConnected = True, lastConnectionAttempt = 9000, connectionTimeout = 39000\<rparr>,
      [SerialPrint (''Attempting GSM connection...'' @ [CHR 0x0D, CHR 0x0A]), GsmBegin '''',
       AttachGPRS ''zonginternet'' '''' '''',
       SerialPrint (''GSM connection established successfully'' @ [CHR 0x0D, CHR 0x0A]),
       ClientConnect ''api.thingspeak.com'' 443,
       ClientPrint ''GET'', ClientPrint '' '', ClientPrint ''/update'',
       ClientPrint ('' HTTP/1.1'' @ [CHR 0x0D, CHR 0x0A]),
       ClientPrint ''Host: '', ClientPrint (''api.thingspeak.com'' @ [CHR 0x0D, CHR 0x0A]),
       ClientPrint (''Connection: close'' @ [CHR 0x0D, CHR 0x0A]),
       ClientPrint [CHR 0x0D, CHR 0x0A]])
   \<and> client_bytes (snd (snd (sendData GSMConnection ''/update'' ''GET'' attach_ok))) =
       ''GET /update HTTP/1.1'' @ [CHR 0x0D, CHR 0x0A]
       @ ''Host: api.thingspeak.com'' @ [CHR 0x0D, CHR 0x0A]
       @ ''Connection: close'' @ [CHR 0x0D, CHR 0x0A, CHR 0x0D, CHR 0x0A]
   \<and> \<not> fst (sendData GSMConnection ''/update'' ''GET'' (attach_ok\<lparr>client_ok := False\<rparr>))
   \<and> \<not> fst (sendData GSMConnection ''/update'' ''GET'' (attach_ok\<lparr>gprs_ready := False\<rparr>))"
proof -
  have r: "sendData GSMConnection ''/update'' ''GET'' attach_ok =
     (True, \<lparr>isConnected = True, lastConnectionAttempt = 9000, connectionTimeout = 39000\<rparr>,
      [SerialPrint (''Attempting GSM connection...'' @ [CHR 0x0D, CHR 0x0A]), GsmBegin '''',
       AttachGPRS ''zonginternet'' '''' '''',
       SerialPrint (''GSM connection established successfully'' @ [CHR 0x0D, CHR 0x0A]),
       ClientConnect ''api.thingspeak.com'' 443,
       ClientPrint ''GET'', ClientPrint '' '', ClientPrint ''/update'',
       ClientPrint ('' HTTP/1.1'' @ [CHR 0x0D, CHR 0x0A]),
       ClientPrint ''Host: '', ClientPrint (''api.thingspeak.com'' @ [CHR 0x0D, CHR 0x0A]),
       ClientPrint (''Connection: close'' @ [CHR 0x0D, CHR 0x0A]),
       ClientPrint [CHR 0x0D, CHR 0x0A]])"
    by (simp add: sendData_def connect_def GSMConnection_def isReady_def attach_ok_def Let_def
          CONNECTION_TIMEOUT_def request_prints_def THINGSPEAK_SERVER_def THINGSPEAK_PORT_def
          CRLF_def PINNUMBER_def GPRS_APN_def GPRS_LOGIN_def GPRS_PASSWORD_def)
  have nr: "\<not> isReady GSMConnection (t_isReady (attach_ok\<lparr>gprs_ready := False\<rparr>))"
    by (simp add: isReady_def GSMConnection_def)
  have nc: "\<not> fst (connect GSMConnection (t_connect (attach_ok\<lparr>gprs_ready := False\<rparr>))
                  (gsm_ready (attach_ok\<lparr>gprs_ready := False\<rparr>))
                  (gprs_ready (attach_ok\<lparr>gprs_ready := False\<rparr>)))"
    by (simp add: connect_def GSMConnection_def attach_ok_def Let_def)
  note t1 = sendData_true_only_if_request_written
              [of GSMConnection "''/update''" "''GET''" attach_ok]
  note t2 = sendData_true_only_if_request_written
              [of GSMConnection "''/update''" "''GET''" "attach_ok\<lparr>client_ok := False\<rparr>"]
  note t3 = sendData_true_only_if_request_written
              [of GSMConnection "''/update''" "''GET''" "attach_ok\<lparr>gprs_ready := False\<rparr>"]
  from r have h: "fst (sendData GSMConnection ''/update'' ''GET'' attach_ok)" by simp
  from t1 h have "client_bytes (snd (snd (sendData GSMConnection ''/update'' ''GET'' attach_ok))) =
       ''GET'' @ '' '' @ ''/update'' @ '' HTTP/1.1'' @ [CHR 0x0D, CHR 0x0A]
       @ ''Host: api.thingspeak.com'' @ [CHR 0x0D, CHR 0x0A]
       @ ''Connection: close'' @ [CHR 0x0D, CHR 0x0A, CHR 0x0D, CHR 0x0A]"
    by blast
  then have b: "client_bytes (snd (snd (sendData GSMConnection ''/update'' ''GET'' attach_ok))) =
       ''GET /update HTTP/1.1'' @ [CHR 0x0D, CHR 0x0A]
       @ ''Host: api.thingspeak.com'' @ [CHR 0x0D, CHR 0x0A]
       @ ''Connection: close'' @ [CHR 0x0D, CHR 0x0A, CHR 0x0D, CHR 0x0A]"
    by simp
  from t2 have c: "\<not> fst (sendData GSMConnection ''/update'' ''GET'' (attach_ok\<lparr>client_ok := False\<rparr>))"
    by simp
  from t3 nr nc have d: "\<not> fst (sendData GSMConnection ''/update'' ''GET'' (attach_ok\<lparr>gprs_ready := False\<rparr>))"
    by blast
  from r b c d show ?thesis by blast
qed

section \<open>Properties of sendToThingSpeak\<close>

lemma poll_loop_returns:
  "isComplete d (t_complete (polls (i + k))) \<Longrightarrow> \<exists>ev1. poll_loop gsm d polls i ev = Some ev1"
proof (induction k arbitrary: i ev)
  case 0
  then show ?case by (subst poll_loop.simps) simp
next
  case (Suc k)
  from Suc.prems have "isComplete d (t_complete (polls (Suc i + k)))" by simp
  from Suc.IH [OF this]
  have "\<exists>ev1. poll_loop gsm d polls (i + 1) (ev @ handleResponse (polls i)) = Some ev1"
    by simp
  then show ?case by (subst poll_loop.simps) (auto simp: Let_def)
qed

lemma isReady_GSMConnection: "\<not> isReady GSMConnection t"
  by (simp add: isReady_def GSMConnection_def)

lemma sendData_fresh:
  "fst (sendData GSMConnection url method env) =
     (5000 \<le> t_connect env \<and> gsm_ready env \<and> gprs_ready env \<and> client_ok env)"
  by (auto simp: sendData_def connect_def GSMConnection_def isReady_def Let_def not_less
           split: prod.splits if_splits)

text \<open>
  Claim C9. Provided the clock reaches the end of the 5000 ms response window in some
  round of the loop, \<open>sendToThingSpeak\<close> returns, and what it returns is what
  \<open>sendData\<close> returned on a newly constructed \<open>GSMConnection\<close>, whatever the server
  answers, and in particular when no byte ever arrives; when \<open>sendData\<close> fails it
  returns false at once. The new object is not connected and not ready at any time, so
  the result is true exactly when \<open>connect\<close> is not refused by the rate limit, both
  attaches succeed and the client connects.
\<close>

theorem sendToThingSpeak_result:
  assumes "isComplete (NonBlockingDelay 5000 t_start) (t_complete (polls n))"
  shows "(\<exists>ev. sendToThingSpeak data field env t_start polls =
            Some (fst (sendData GSMConnection (update_url data field) ''GET'' env), ev))
     \<and> (\<not> fst (sendData GSMConnection (update_url data field) ''GET'' env) \<longrightarrow>
          sendToThingSpeak data field env t_start polls =
            Some (False, snd (snd (sendData GSMConnection (update_url data field) ''GET'' env))))
     \<and> \<not> isConnected GSMConnection \<and> (\<forall>t. \<not> isReady GSMConnection t)
     \<and> fst (sendData GSMConnection (update_url data field) ''GET'' env) =
         (5000 \<le> t_connect env \<and> gsm_ready env \<and> gprs_ready env \<and> client_ok env)"
proof -
  obtain ok gsm1 ev
    where sd: "sendData GSMConnection (update_url data field) ''GET'' env = (ok, gsm1, ev)"
    by (cases "sendData GSMConnection (update_url data field) ''GET'' env") auto
  from assms have "\<exists>ev1. poll_loop gsm1 (NonBlockingDelay 5000 t_start) polls 0 ev = Some ev1"
    using poll_loop_returns [of _ polls 0 n] by simp
  then obtain ev1
    where pl: "poll_loop gsm1 (NonBlockingDelay 5000 t_start) polls 0 ev = Some ev1" ..
  have 1: "\<exists>ev. sendToThingSpeak data field env t_start polls =
            Some (fst (sendData GSMConnection (update_url data field) ''GET'' env), ev)"
    by (simp add: sendToThingSpeak_def sd pl Let_def)
  have 2: "\<not> fst (sendData GSMConnection (update_url data field) ''GET'' env) \<longrightarrow>
          sendToThingSpeak data field env t_start polls =
            Some (False, snd (snd (sendData GSMConnection (update_url data field) ''GET'' env)))"
    by (simp add: sendToThingSpeak_def sd Let_def)
  have 3: "\<not> isConnected GSMConnection" by (simp add: GSMConnection_def)
  from 1 2 3 isReady_GSMConnection sendData_fresh show ?thesis by blast
qed

theorem sendToThingSpeak_result_witness:
  "isComplete (NonBlockingDelay 5000 10000) (t_complete (quiet 5))
   \<and> (\<forall>i. \<not> avail_first (quiet i) \<and> \<not> avail_second (quiet i))
   \<and> (\<exists>ev. sendToThingSpeak ''512'' 1 attach_ok 10000 quiet = Some (True, ev))"
proof -
  have h: "isComplete (NonBlockingDelay 5000 10000) (t_complete (quiet 5))"
    by (simp add: isComplete_def NonBlockingDelay_def quiet_def)
  note r = sendToThingSpeak_result [where t_start = 10000 and polls = quiet and n = 5
             and data = "''512''" and field = 1 and env = attach_ok, OF h]
  from r have "fst (sendData GSMConnection (update_url ''512'' 1) ''GET'' attach_ok)"
    by (simp add: attach_ok_def)
  with r h show ?thesis by (auto simp: quiet_def)
qed

section \<open>Properties of the sample buffer: capacity\<close>

lemma wf_SensorBuffer: "wf_buffer SensorBuffer"
  by (simp add: wf_buffer_def SensorBuffer_def clear_def MAX_SAMPLES_def)

lemma wf_clear: "wf_buffer (snd (clear b))"
  by (simp add: wf_buffer_def clear_def MAX_SAMPLES_def)

lemma addSample_wf:
  assumes "wf_buffer b"
  shows "\<exists>b1. addSample b v = Inr ((), b1) \<and> wf_buffer b1"
  using assms by (auto simp: wf_buffer_def addSample_def MAX_SAMPLES_def)

text \<open>Every state of a \<open>SensorBuffer\<close> object is well-formed.\<close>

lemma reachable_wf: "reachable b \<Longrightarrow> wf_buffer b"
proof (induction rule: reachable.induct)
  case reach_new
  show ?case by (rule wf_SensorBuffer)
next
  case (reach_add b v u b1)
  with addSample_wf [of b v] show ?case by auto
next
  case (reach_clear b)
  show ?case by (rule wf_clear)
qed

lemma addSamples_wf:
  "wf_buffer b \<Longrightarrow> \<exists>b1. addSamples b vs = Inr b1 \<and> wf_buffer b1"
proof (induction vs arbitrary: b)
  case Nil
  then show ?case by simp
next
  case (Cons v vs)
  from addSample_wf [OF Cons.prems, of v] obtain b1
    where b1: "addSample b v = Inr ((), b1)" "wf_buffer b1" by blast
  from Cons.IH [OF b1(2)] b1(1) show ?case by simp
qed

lemma wf_full_buffer: "wf_buffer full_buffer"
  by (simp add: wf_buffer_def full_buffer_def MAX_SAMPLES_def)

text \<open>
  \<open>addSample\<close> does not return a rejection: it is a \<open>void\<close> method, and what it returns
  on a full buffer, where the value is dropped, is what it returns on an empty
  buffer, where the value is stored.
\<close>

theorem addSample_returns_no_rejection:
  "isFull full_buffer \<and> addSample full_buffer 7 = Inr ((), full_buffer)
   \<and> \<not> isFull SensorBuffer
   \<and> addSample SensorBuffer 7 =
       Inr ((), SensorBuffer\<lparr>samples := (samples SensorBuffer)[0 := 7], currentIndex := 1,
                             sampleCount := 1\<rparr>)
   \<and> map_sum id fst (addSample full_buffer 7) = map_sum id fst (addSample SensorBuffer 7)"
  by (simp add: isFull_def addSample_def full_buffer_def SensorBuffer_def clear_def
                MAX_SAMPLES_def)

text \<open>
  Claim C3, amended. From every well-formed buffer state, which every state of an
  object is, every sequence of \<open>addSample\<close> calls runs without error and leaves
  \<open>getSampleCount\<close> at most 500; and whenever \<open>isFull\<close> is true, one more \<open>addSample\<close>
  leaves the whole object as it is, the count and every stored sample: the new value is
  not stored and no older sample is overwritten. The method returns nothing, so the
  caller is not told.
\<close>

theorem addSample_never_exceeds_capacity:
  assumes "wf_buffer b"
  shows "(\<exists>b1. addSamples b vs = Inr b1 \<and> wf_buffer b1 \<and> getSampleCount b1 \<le> MAX_SAMPLES)
     \<and> (isFull b \<longrightarrow> addSample b v = Inr ((), b))"
proof -
  from addSamples_wf [OF assms, of vs] obtain b1
    where "addSamples b vs = Inr b1" "wf_buffer b1" by blast
  then have "\<exists>b1. addSamples b vs = Inr b1 \<and> wf_buffer b1 \<and> getSampleCount b1 \<le> MAX_SAMPLES"
    by (auto simp: wf_buffer_def getSampleCount_def)
  moreover have "isFull b \<longrightarrow> addSample b v = Inr ((), b)"
    by (simp add: isFull_def addSample_def)
  ultimately show ?thesis by blast
qed

theorem addSample_never_exceeds_capacity_witness:
  "wf_buffer full_buffer \<and> isFull full_buffer
   \<and> addSample full_buffer 9 = Inr ((), full_buffer)
   \<and> (\<exists>b1. addSamples full_buffer [1, 2, 3] = Inr b1 \<and> getSampleCount b1 \<le> MAX_SAMPLES)"
  using wf_full_buffer addSample_never_exceeds_capacity [OF wf_full_buffer, of "[1, 2, 3]" 9]
  by (auto simp: isFull_def full_buffer_def MAX_SAMPLES_def)

section \<open>Properties of the sample buffer: the number of samples per chunk\<close>

lemma c_div_pos: "0 \<le> n \<Longrightarrow> 1 \<le> k \<Longrightarrow> c_div n k = Inr (n div k)"
  by (cases "n = 0") (auto simp: c_div_def sgn_if)

lemma samplesPerChunk_of_pos:
  "0 \<le> n \<Longrightarrow> 1 \<le> k \<Longrightarrow> samplesPerChunk_of n k = Inr (max 1 (n div k))"
  using pos_imp_zdiv_nonneg_iff [of k n]
  by (auto simp: samplesPerChunk_of_def c_div_pos max_def)

lemma samplesPerChunk_of_zero: "samplesPerChunk_of n 0 = Inl DivisionByZero"
  by (simp add: samplesPerChunk_of_def c_div_def)

lemma getDataAsChunks_zero: "getDataAsChunks b chunks 0 = Inl DivisionByZero"
  by (simp add: getDataAsChunks_def samplesPerChunk_of_zero)

lemma getDataAsChunks_neg:
  assumes "0 \<le> sampleCount b" "sampleCount b < 2 ^ 31" "k < 0"
  shows "getDataAsChunks b chunks k = Inr (chunks, 0)"
proof -
  from assms obtain q where "samplesPerChunk_of (sampleCount b) k = Inr q"
    by (auto simp: samplesPerChunk_of_def c_div_def)
  moreover from assms have "chunk_loop b k q 0 0 chunks = Inr (chunks, 0)"
    by (subst chunk_loop.simps) simp
  ultimately show ?thesis by (simp add: getDataAsChunks_def)
qed

lemma wf_five_buffer: "wf_buffer five_buffer"
  by (simp add: wf_buffer_def five_buffer_def MAX_SAMPLES_def)

text \<open>
  \<open>maxChunks \<ge> 1\<close> is not necessary for \<open>getDataAsChunks\<close> to be well-defined: with
  \<open>maxChunks = -1\<close> the division is defined, the loop is not entered, and the call
  returns with no chunk and the array as it was.
\<close>

theorem getDataAsChunks_negative_defined:
  "samplesPerChunk_of (sampleCount five_buffer) (- 1) = Inr (- 5)
   \<and> getDataAsChunks five_buffer [] (- 1) = Inr ([], 0)"
proof -
  have "samplesPerChunk_of (sampleCount five_buffer) (- 1) = Inr (- 5)"
    by (simp add: samplesPerChunk_of_def c_div_def five_buffer_def)
  moreover have "getDataAsChunks five_buffer [] (- 1) = Inr ([], 0)"
    by (rule getDataAsChunks_neg) (simp_all add: five_buffer_def)
  ultimately show ?thesis by simp
qed

text \<open>
  Claim C8, amended. \<open>getDataAsChunks\<close> divides \<open>sampleCount\<close> by \<open>maxChunks\<close> without a
  guard. On a well-formed buffer the division is defined exactly when \<open>maxChunks\<close> is
  not 0; for every \<open>maxChunks \<ge> 1\<close> the number of samples per chunk is defined and at
  least 1; a call with \<open>maxChunks = 0\<close> divides by zero; a call with a negative
  \<open>maxChunks\<close> is defined and produces no chunk.
\<close>

theorem samplesPerChunk_defined_unless_zero:
  assumes "wf_buffer b"
  shows "(1 \<le> k \<longrightarrow> (\<exists>spc. samplesPerChunk_of (sampleCount b) k = Inr spc \<and> 1 \<le> spc))
     \<and> samplesPerChunk_of (sampleCount b) 0 = Inl DivisionByZero
     \<and> getDataAsChunks b chunks 0 = Inl DivisionByZero
     \<and> (k < 0 \<longrightarrow> getDataAsChunks b chunks k = Inr (chunks, 0))
     \<and> ((\<exists>spc. samplesPerChunk_of (sampleCount b) k = Inr spc) = (k \<noteq> 0))"
proof -
  from assms have n: "0 \<le> sampleCount b" "sampleCount b < 2 ^ 31"
    by (simp_all add: wf_buffer_def MAX_SAMPLES_def)
  have 1: "1 \<le> k \<longrightarrow> (\<exists>spc. samplesPerChunk_of (sampleCount b) k = Inr spc \<and> 1 \<le> spc)"
    using samplesPerChunk_of_pos [OF n(1), of k] by simp
  have 2: "k < 0 \<longrightarrow> getDataAsChunks b chunks k = Inr (chunks, 0)"
    using getDataAsChunks_neg [OF n] by simp
  have 3: "(\<exists>spc. samplesPerChunk_of (sampleCount b) k = Inr spc) = (k \<noteq> 0)"
    using n by (auto simp: samplesPerChunk_of_def c_div_def)
  from 1 2 3 samplesPerChunk_of_zero getDataAsChunks_zero show ?thesis by blast
qed

theorem samplesPerChunk_defined_unless_zero_witness:
  "wf_buffer five_buffer \<and> (1 :: int) \<le> 2
   \<and> samplesPerChunk_of (sampleCount five_buffer) 2 = Inr 2
   \<and> getDataAsChunks five_buffer [] 0 = Inl DivisionByZero
   \<and> (- 3 :: int) < 0
   \<and> getDataAsChunks five_buffer [] (- 3) = Inr ([], 0)"
proof -
  have "samplesPerChunk_of (sampleCount five_buffer) 2 = Inr 2"
    by (simp add: samplesPerChunk_of_def c_div_def five_buffer_def)
  with wf_five_buffer
    samplesPerChunk_defined_unless_zero [OF wf_five_buffer, of 2 "[]"]
    samplesPerChunk_defined_unless_zero [OF wf_five_buffer, of "- 3" "[]"]
  show ?thesis by simp
qed

section \<open>The text of a sample and reading it back\<close>

lemma digit_cases:
  "d < 10 \<Longrightarrow> d = 0 \<or> d = 1 \<or> d = 2 \<or> d = 3 \<or> d = 4 \<or> d = 5 \<or> d = 6 \<or> d = 7 \<or> d = 8 \<or> d = (9::nat)"
  by arith

lemma digit_val_digit_char: "d < 10 \<Longrightarrow> digit_val (digit_char d) = d"
  using digit_cases [of d] by (auto simp: digit_val_def digit_char_def)

lemma digit_char_plain:
  "d < 10 \<Longrightarrow> digit_char d \<noteq> CHR '' '' \<and> digit_char d \<noteq> CHR ''-'' \<and> digit_char d \<noteq> NUL"
  using digit_cases [of d] by (auto simp: digit_char_def NUL_def)

lemma digits_plain:
  "c \<in> set (digits n) \<Longrightarrow> c \<noteq> CHR '' '' \<and> c \<noteq> CHR ''-'' \<and> c \<noteq> NUL"
proof (induction n rule: digits.induct)
  case (1 n)
  show ?case
  proof (cases "n < 10")
    case True
    with "1.prems" digit_char_plain [of n] show ?thesis
      by (simp add: digits.simps [of n])
  next
    case False
    with "1.prems" "1.IH" digit_char_plain [of "n mod 10"] show ?thesis
      by (auto simp: digits.simps [of n])
  qed
qed

lemma digits_not_Nil: "digits n \<noteq> []"
  by (subst digits.simps) simp

lemma parse_nat_snoc: "parse_nat (s @ [c]) = 10 * parse_nat s + digit_val c"
  by (simp add: parse_nat_def)

lemma parse_nat_digits: "parse_nat (digits n) = n"
proof (induction n rule: digits.induct)
  case (1 n)
  show ?case
  proof (cases "n < 10")
    case True
    then show ?thesis
      by (simp add: digits.simps [of n] parse_nat_def digit_val_digit_char)
  next
    case False
    with "1.IH" show ?thesis
      by (simp add: digits.simps [of n] parse_nat_snoc digit_val_digit_char)
  qed
qed

lemma length_digits_le: "n < 10 ^ k \<Longrightarrow> 0 < k \<Longrightarrow> length (digits n) \<le> k"
proof (induction n arbitrary: k rule: digits.induct)
  case (1 n)
  show ?case
  proof (cases "n < 10")
    case True
    with "1.prems" show ?thesis by (simp add: digits.simps [of n])
  next
    case False
    with "1.prems" obtain j where k: "k = Suc j" "0 < j"
      by (cases k; cases "k - 1") auto
    with "1.prems" have "n div 10 < 10 ^ j"
      by (simp add: less_mult_imp_div_less mult.commute)
    from "1.IH" [OF False this k(2)] False k show ?thesis
      by (simp add: digits.simps [of n])
  qed
qed

lemma parse_d_fmt_d: "parse_d (fmt_d i) = i"
proof (cases "i < 0")
  case True
  then show ?thesis by (simp add: parse_d_def fmt_d_def parse_nat_digits)
next
  case False
  obtain c cs where d: "digits (nat i) = c # cs"
    using digits_not_Nil [of "nat i"] by (cases "digits (nat i)") auto
  then have "c \<in> set (digits (nat i))" by simp
  from digits_plain [OF this] have "c \<noteq> CHR ''-''" by simp
  with False d parse_nat_digits [of "nat i"] show ?thesis
    by (simp add: parse_d_def fmt_d_def)
qed

lemma fmt_d_plain: "c \<in> set (fmt_d i) \<Longrightarrow> c \<noteq> CHR '' '' \<and> c \<noteq> NUL"
  using digits_plain [of c] by (auto simp: fmt_d_def NUL_def split: if_splits)

lemma item_no_NUL: "NUL \<notin> set (item v)"
  using fmt_d_plain [of NUL] by (auto simp: item_def NUL_def)

lemma length_item_pos: "2 \<le> length (item v)"
  using digits_not_Nil [of "nat (sint v)"] digits_not_Nil [of "nat (- sint v)"]
  by (cases "digits (nat (sint v))"; cases "digits (nat (- sint v))")
     (auto simp: item_def fmt_d_def)

lemma length_item_narrow: "narrow v \<Longrightarrow> length (item v) \<le> 10"
proof (cases "sint v < 0")
  case True
  assume "narrow v"
  with True have "nat (- sint v) < 10 ^ 8" by (simp add: narrow_def)
  from length_digits_le [OF this] True show ?thesis by (simp add: item_def fmt_d_def)
next
  case False
  assume "narrow v"
  with False have "nat (sint v) < 10 ^ 9" by (simp add: narrow_def)
  from length_digits_le [OF this] False show ?thesis by (simp add: item_def fmt_d_def)
qed

lemma split_items_token:
  "CHR '' '' \<notin> set s \<Longrightarrow>
     split_items acc (s @ CHR '' '' # rest) = (rev acc @ s) # split_items [] rest"
  by (induction s arbitrary: acc) auto

lemma split_items_concat:
  "split_items [] (concat (map item vs)) = map (\<lambda>v. fmt_d (sint v)) vs"
proof (induction vs)
  case Nil
  show ?case by simp
next
  case (Cons v vs)
  have "CHR '' '' \<notin> set (fmt_d (sint v))" using fmt_d_plain by blast
  from split_items_token [OF this, of "[]"] Cons show ?case
    by (simp add: item_def)
qed

lemma decode_items: "decode (concat (map item vs)) = vs"
  by (simp add: decode_def split_items_concat parse_d_fmt_d o_def map_idI)

section \<open>The printing loop\<close>

lemma store_Inr:
  assumes "0 \<le> pos" "nat pos + length bytes \<le> length buf"
  shows "\<exists>b1. store buf pos bytes = Inr b1 \<and> length b1 = length buf
           \<and> take (nat pos + length bytes) b1 = take (nat pos) buf @ bytes"
  using assms by (simp add: store_def)

lemma size_t_id: "0 \<le> i \<Longrightarrow> i < 2 ^ 32 \<Longrightarrow> size_t i = nat i"
  by (simp add: size_t_def)

text \<open>One call of snprintf that has room for the whole text.\<close>

lemma snprintf_d_fits:
  assumes "0 \<le> pos" "int (length (item v)) < sz" "sz < 2 ^ 32"
    and "nat pos + length (item v) + 1 \<le> length buf"
  shows "\<exists>b1. snprintf_d buf pos sz v = Inr (b1, int (length (item v)))
           \<and> length b1 = length buf
           \<and> take (nat pos + length (item v) + 1) b1 = take (nat pos) buf @ item v @ [NUL]"
proof -
  from assms have n: "size_t sz = nat sz" "size_t sz \<noteq> 0" "length (item v) \<le> size_t sz - 1"
    by (simp_all add: size_t_def)
  then have out: "(if size_t sz = 0 then [] else take (size_t sz - 1) (item v) @ [NUL]) = item v @ [NUL]"
    by simp
  from assms have "nat pos + length (item v @ [NUL]) \<le> length buf" by simp
  from store_Inr [OF assms(1) this] show ?thesis
    by (auto simp: snprintf_d_def Let_def out)
qed

lemma slice_step:
  assumes "0 \<le> i" "i < e" "e \<le> int (length smp)"
  shows "slice smp i e = smp ! nat i # slice smp (i + 1) e"
proof -
  from assms have "nat i < length (take (nat e) smp)" by simp
  from Cons_nth_drop_Suc [OF this, symmetric] assms show ?thesis
    by (simp add: slice_def nat_add_distrib)
qed

lemma slice_empty: "e \<le> i \<Longrightarrow> slice smp i e = []"
  by (simp add: slice_def)

lemma print_samples_spec:
  assumes "0 \<le> i" "e \<le> int (length smp)" "0 \<le> pos" "limit + 10 \<le> cap"
    and "cap \<le> int (length buf)" "cap < 2 ^ 32"
    and "\<forall>v \<in> set (slice smp i e). narrow v"
  shows "\<exists>buf1. print_samples smp e limit cap i pos buf =
                  Inr (pos + int (length (concat (map item (printed limit pos (slice smp i e))))), buf1)
           \<and> length buf1 = length buf
           \<and> take (nat pos + length (concat (map item (printed limit pos (slice smp i e))))) buf1
               = take (nat pos) buf @ concat (map item (printed limit pos (slice smp i e)))
           \<and> (printed limit pos (slice smp i e) = [] \<longrightarrow> buf1 = buf)
           \<and> (printed limit pos (slice smp i e) \<noteq> [] \<longrightarrow>
                 buf1 ! (nat pos + length (concat (map item (printed limit pos (slice smp i e))))) = NUL
                 \<and> nat pos + length (concat (map item (printed limit pos (slice smp i e)))) < length buf1)"
  using assms
proof (induction smp e limit cap i pos buf rule: print_samples.induct)
  case (1 smp e limit cap i pos buf)
  show ?case
  proof (cases "i < e \<and> pos < limit")
    case False
    then have "printed limit pos (slice smp i e) = []"
      by (cases "slice smp i e") (auto simp: slice_empty)
    with False show ?thesis
      by (subst print_samples.simps) auto
  next
    case True
    let ?v = "smp ! nat i"
    let ?L = "length (item ?v)"
    from True "1.prems" have sl: "slice smp i e = ?v # slice smp (i + 1) e"
      by (simp add: slice_step)
    from True "1.prems" have "nat i < length smp" by linarith
    with "1.prems" have sa: "sample_at smp i = Inr ?v"
      by (simp add: sample_at_def)
    from sl "1.prems" have nv: "narrow ?v" by simp
    from length_item_narrow [OF nv] length_item_pos [of ?v] have L: "2 \<le> ?L" "?L \<le> 10"
      by simp_all
    from True "1.prems" L have fits: "int ?L < cap - pos" "cap - pos < 2 ^ 32"
      "nat pos + ?L + 1 \<le> length buf"
      by auto
    from snprintf_d_fits [OF \<open>0 \<le> pos\<close> fits] obtain b1
      where b1: "snprintf_d buf pos (cap - pos) ?v = Inr (b1, int ?L)"
        "length b1 = length buf"
        "take (nat pos + ?L + 1) b1 = take (nat pos) buf @ item ?v @ [NUL]"
      by blast
    let ?pos1 = "pos + int ?L"
    let ?ws1 = "printed limit ?pos1 (slice smp (i + 1) e)"
    let ?t1 = "concat (map item ?ws1)"
    have pr: "printed limit pos (slice smp i e) = ?v # ?ws1"
      using True sl by simp
    have w: "(if int ?L > 0 then pos + int ?L else pos) = ?pos1" using L by simp
    from "1.prems" sl b1(2) have pre: "0 \<le> i + 1" "e \<le> int (length smp)" "0 \<le> ?pos1"
      "limit + 10 \<le> cap" "cap \<le> int (length b1)" "cap < 2 ^ 32"
      "\<forall>v \<in> set (slice smp (i + 1) e). narrow v"
      by simp_all
    from "1.IH" [OF True sa b1(1) refl, unfolded w, OF pre] obtain buf1
      where ih: "print_samples smp e limit cap (i + 1) ?pos1 b1 = Inr (?pos1 + int (length ?t1), buf1)"
        "length buf1 = length b1"
        "take (nat ?pos1 + length ?t1) buf1 = take (nat ?pos1) b1 @ ?t1"
        "?ws1 = [] \<longrightarrow> buf1 = b1"
        "?ws1 \<noteq> [] \<longrightarrow> buf1 ! (nat ?pos1 + length ?t1) = NUL \<and> nat ?pos1 + length ?t1 < length buf1"
      by blast
    have np: "nat ?pos1 = nat pos + ?L" using \<open>0 \<le> pos\<close> by (simp add: nat_add_distrib)
    have tk: "take (nat pos + ?L) b1 = take (nat pos) buf @ item ?v"
    proof -
      have "take (nat pos + ?L) b1 = take (nat pos + ?L) (take (nat pos + ?L + 1) b1)"
        by simp
      also have "\<dots> = take (nat pos) buf @ item ?v"
        using fits(3) by (simp only: b1(3)) simp
      finally show ?thesis .
    qed
    have nul: "b1 ! (nat pos + ?L) = NUL"
    proof -
      have "b1 ! (nat pos + ?L) = take (nat pos + ?L + 1) b1 ! (nat pos + ?L)" by simp
      also have "\<dots> = NUL"
        using fits(3) by (simp only: b1(3)) (simp add: nth_append)
      finally show ?thesis .
    qed
    have run: "print_samples smp e limit cap i pos buf = Inr (?pos1 + int (length ?t1), buf1)"
      using True sa b1(1) w ih(1) by (subst print_samples.simps) simp
    have len: "pos + int (length (concat (map item (?v # ?ws1)))) = ?pos1 + int (length ?t1)"
      by simp
    have nlen: "nat pos + length (concat (map item (?v # ?ws1))) = nat ?pos1 + length ?t1"
      using np by simp
    have t: "take (nat ?pos1 + length ?t1) buf1 = take (nat pos) buf @ concat (map item (?v # ?ws1))"
      using ih(3) tk np by simp
    have z: "buf1 ! (nat ?pos1 + length ?t1) = NUL \<and> nat ?pos1 + length ?t1 < length buf1"
    proof (cases "?ws1 = []")
      case True
      with ih(4) nul np fits(3) b1(2) show ?thesis by simp
    next
      case False
      with ih(5) show ?thesis by simp
    qed
    show ?thesis
      unfolding pr len nlen using run ih(2) b1(2) t z by auto
  qed
qed

section \<open>The chunk loop\<close>

lemma c_string_row:
  assumes "take (length t) r = t" "length t < length r" "r ! length t = NUL" "NUL \<notin> set t"
  shows "c_string r = t"
proof -
  have "r = take (length t) r @ drop (length t) r" by simp
  also have "drop (length t) r = NUL # drop (Suc (length t)) r"
    using Cons_nth_drop_Suc [OF assms(2)] assms(3) by simp
  finally have "r = t @ NUL # drop (Suc (length t)) r" using assms(1) by simp
  then have "c_string r = takeWhile (\<lambda>c. c \<noteq> NUL) (t @ NUL # drop (Suc (length t)) r)"
    by (simp add: c_string_def)
  also have "\<dots> = t" using assms(4) by (auto simp: takeWhile_tail)
  finally show ?thesis .
qed

lemma NUL_notin_items: "NUL \<notin> set (concat (map item vs))"
  using item_no_NUL by auto

lemma printed_prefix: "prefix (printed limit pos vs) vs"
  by (induction vs arbitrary: pos) auto

lemma printed_first: "vs \<noteq> [] \<Longrightarrow> pos < limit \<Longrightarrow> printed limit pos vs \<noteq> []"
  by (cases vs) auto

lemma items_not_Nil: "vs \<noteq> [] \<Longrightarrow> concat (map item vs) \<noteq> []"
proof (cases vs)
  case Nil
  assume "vs \<noteq> []"
  with Nil show ?thesis by simp
next
  case (Cons v ws)
  with length_item_pos [of v] show ?thesis by auto
qed

lemma length_stored: "wf_buffer b \<Longrightarrow> length (stored b) = nat (sampleCount b)"
  by (auto simp: stored_def wf_buffer_def MAX_SAMPLES_def)

lemma slice_chunk_group:
  assumes "0 \<le> c" "0 \<le> spc"
  shows "slice (samples b) (c * spc) (min (c * spc + spc) (sampleCount b))
         = chunk_group b spc (nat c)"
proof -
  have "nat (c * spc + spc) = nat spc + nat c * nat spc"
    using assms by (simp add: nat_mult_distrib nat_add_distrib)
  moreover have "nat (min (c * spc + spc) (sampleCount b))
        = min (nat (c * spc + spc)) (nat (sampleCount b))"
    by (auto simp: min_def)
  ultimately have "nat (min (c * spc + spc) (sampleCount b))
        = min (nat spc + nat c * nat spc) (nat (sampleCount b))"
    by simp
  then show ?thesis
    using assms by (simp add: slice_def chunk_group_def stored_def take_drop nat_mult_distrib)
qed

text \<open>Chunk \<open>c\<close> has samples exactly when \<open>c\<close> is below both the count and \<open>maxChunks\<close>.\<close>

lemma group_nonempty_iff:
  assumes "0 \<le> (n::int)" "1 \<le> k" "0 \<le> c" "c < k"
  shows "(c * max 1 (n div k) < n) = (c < min n k)"
proof (cases "n < k")
  case True
  with assms have "n div k = 0" by (simp add: div_pos_pos_trivial)
  with True show ?thesis by simp
next
  case False
  from assms False have "0 < n div k" by (subst pos_imp_zdiv_pos_iff) auto
  then have q: "1 \<le> n div k" by simp
  have "k * (n div k) + n mod k = n" by simp
  moreover have "0 \<le> n mod k" using assms(2) by simp
  ultimately have "k * (n div k) \<le> n" by linarith
  moreover have "c * (n div k) \<le> (k - 1) * (n div k)"
    using assms q by (intro mult_right_mono) auto
  moreover have "(k - 1) * (n div k) = k * (n div k) - n div k" by (simp add: algebra_simps)
  ultimately have "c * (n div k) < n" using q by linarith
  with False assms q show ?thesis by (simp add: max_def)
qed

lemma chunk_group_Nil_iff:
  assumes "wf_buffer b" "1 \<le> spc" "0 \<le> c"
  shows "(chunk_group b spc (nat c) = []) = (\<not> c * spc < sampleCount b)"
proof -
  have "nat c * nat spc = nat (c * spc)" using assms by (simp add: nat_mult_distrib)
  moreover have "0 \<le> c * spc" using assms by simp
  ultimately show ?thesis
    using assms length_stored [OF assms(1)]
    by (auto simp: chunk_group_def)
qed

lemma set_chunk_group: "set (chunk_group b spc c) \<subseteq> set (stored b)"
  unfolding chunk_group_def
  by (meson set_take_subset set_drop_subset subset_trans)

lemma chunk_loop_spec:
  assumes "wf_buffer b" "\<forall>v \<in> set (stored b). narrow v" "1 \<le> k"
    and "spc = max 1 (sampleCount b div k)"
    and "k \<le> int (length chunks)" "\<forall>j < nat k. length (chunks ! j) = 200"
    and "0 \<le> c" "c \<le> k" "chunkCount = min c (min (sampleCount b) k)"
  shows "\<exists>chunks1. chunk_loop b k spc c chunkCount chunks = Inr (chunks1, min (sampleCount b) k)
      \<and> length chunks1 = length chunks
      \<and> (\<forall>j < nat c. chunks1 ! j = chunks ! j)
      \<and> (\<forall>j. nat c \<le> j \<and> j < nat (min (sampleCount b) k) \<longrightarrow>
            c_string (chunks1 ! j) = concat (map item (printed 190 0 (chunk_group b spc j))))"
  using assms
proof (induction b k spc c chunkCount chunks rule: chunk_loop.induct)
  case (1 b k spc c chunkCount chunks)
  let ?n = "sampleCount b"
  let ?m = "min ?n k"
  from "1.prems" have n: "0 \<le> ?n" "?n \<le> 500" "length (samples b) = 500"
    by (simp_all add: wf_buffer_def MAX_SAMPLES_def)
  from "1.prems" have spc1: "1 \<le> spc" by simp
  show ?case
  proof (cases "c < k")
    case False
    with "1.prems" have ck: "c = k" by simp
    with "1.prems" n have "chunkCount = ?m" by simp
    with ck show ?thesis
      by (subst chunk_loop.simps) auto
  next
    case True
    with "1.prems" n have cond: "c < k \<and> chunkCount < k" by simp
    let ?start = "c * spc"
    let ?e = "min (?start + spc) ?n"
    let ?row = "row_of chunks c"
    let ?g = "chunk_group b spc (nat c)"
    let ?t = "concat (map item (printed 190 0 ?g))"
    from True "1.prems" have cl: "nat c < length chunks" "nat c < nat k" by linarith+
    with "1.prems" have row: "?row = chunks ! nat c" "length ?row = 200"
      by (simp_all add: row_of_def)
    have sl: "slice (samples b) ?start ?e = ?g"
      using "1.prems" spc1 by (intro slice_chunk_group) auto
    have nar: "\<forall>v \<in> set (slice (samples b) ?start ?e). narrow v"
      unfolding sl using "1.prems"(2) set_chunk_group [of b spc "nat c"] by blast
    have "0 \<le> ?start" using "1.prems" spc1 by simp
    moreover have "?e \<le> int (length (samples b))" using n by simp
    ultimately obtain row1 where p:
      "print_samples (samples b) ?e 190 200 ?start 0 ?row = Inr (0 + int (length ?t), row1)"
      "length row1 = length ?row"
      "take (nat 0 + length ?t) row1 = take (nat 0) ?row @ ?t"
      "printed 190 0 ?g = [] \<longrightarrow> row1 = ?row"
      "printed 190 0 ?g \<noteq> [] \<longrightarrow> row1 ! (nat 0 + length ?t) = NUL \<and> nat 0 + length ?t < length row1"
      using print_samples_spec [of ?start ?e "samples b" 0 190 200 ?row, OF _ _ _ _ _ _ nar]
        row(2) unfolding sl by auto
    have ne: "(?g = []) = (\<not> c < ?m)"
      using chunk_group_Nil_iff [OF "1.prems"(1) spc1 "1.prems"(7)]
        group_nonempty_iff [OF n(1) "1.prems"(3) "1.prems"(7) True] "1.prems"(4)
      by simp
    show ?thesis
    proof (cases "c < ?m")
      case False
      with ne have g: "?g = []" by simp
      then have pos0: "\<not> (0 + int (length ?t) > 0)" by simp
      from g p(4) have r1: "row1 = ?row" by simp
      have upd: "chunks[nat c := row1] = chunks" using r1 row(1) by simp
      have cc: "chunkCount = min (c + 1) ?m" using False True "1.prems" by simp
      from "1.IH"(2) [OF cond refl refl p(1) refl pos0, unfolded upd,
          OF "1.prems"(1-6) _ _ cc] True "1.prems"(7)
      obtain chunks1 where ih:
        "chunk_loop b k spc (c + 1) chunkCount chunks = Inr (chunks1, ?m)"
        "length chunks1 = length chunks"
        "\<forall>j < nat (c + 1). chunks1 ! j = chunks ! j"
        by auto
      have run: "chunk_loop b k spc c chunkCount chunks = Inr (chunks1, ?m)"
        using cond p(1) pos0 upd ih(1)
        by (subst chunk_loop.simps) (simp add: Let_def)
      from False "1.prems"(7) have "\<forall>j. \<not> (nat c \<le> j \<and> j < nat ?m)" by auto
      with run ih(2,3) show ?thesis by auto
    next
      case lt: True
      with ne have g: "?g \<noteq> []" by simp
      then have pr: "printed 190 0 ?g \<noteq> []" by (simp add: printed_first)
      then have tne: "?t \<noteq> []" by (rule items_not_Nil)
      then have pos: "0 + int (length ?t) > 0" by simp
      from pr p(5) have z: "row1 ! length ?t = NUL" "length ?t < length row1" by simp_all
      from z(2) have "nat (0 + int (length ?t)) + length [NUL] \<le> length row1" by simp
      from store_Inr [OF _ this] obtain row2 where
        st: "store row1 (0 + int (length ?t)) [NUL] = Inr row2" "length row2 = length row1"
        "take (length ?t + 1) row2 = take (length ?t) row1 @ [NUL]"
        by auto
      have tk2: "take (length ?t) row2 = ?t"
      proof -
        have "take (length ?t) row2 = take (length ?t) (take (length ?t + 1) row2)" by simp
        also have "\<dots> = take (length ?t) row1" using z(2) by (simp only: st(3)) simp
        also have "\<dots> = ?t" using p(3) by simp
        finally show ?thesis .
      qed
      have nul2: "row2 ! length ?t = NUL"
      proof -
        have "row2 ! length ?t = take (length ?t + 1) row2 ! length ?t" by simp
        also have "\<dots> = NUL" using z(2) by (simp only: st(3)) (simp add: nth_append)
        finally show ?thesis .
      qed
      have cs: "c_string row2 = ?t"
        using tk2 z(2) st(2) nul2 NUL_notin_items by (intro c_string_row) auto
      let ?chunks2 = "chunks[nat c := row2]"
      have cc: "chunkCount + 1 = min (c + 1) ?m" using lt "1.prems" by simp
      have rows2: "k \<le> int (length ?chunks2)" "\<forall>j < nat k. length (?chunks2 ! j) = 200"
      proof -
        show "k \<le> int (length ?chunks2)" using "1.prems"(5) by simp
        show "\<forall>j < nat k. length (?chunks2 ! j) = 200"
        proof (intro allI impI)
          fix j assume j: "j < nat k"
          with "1.prems"(5) have "j < length chunks" by linarith
          with j "1.prems"(6) st(2) p(2) row(2) cl(1) show "length (?chunks2 ! j) = 200"
            by (simp add: nth_list_update)
        qed
      qed
      from "1.IH"(1) [OF cond refl refl p(1) refl pos st(1),
          OF "1.prems"(1-4) rows2 _ _ cc] True "1.prems"(7)
      obtain chunks1 where ih:
        "chunk_loop b k spc (c + 1) (chunkCount + 1) ?chunks2 = Inr (chunks1, ?m)"
        "length chunks1 = length ?chunks2"
        "\<forall>j < nat (c + 1). chunks1 ! j = ?chunks2 ! j"
        "\<forall>j. nat (c + 1) \<le> j \<and> j < nat ?m \<longrightarrow>
            c_string (chunks1 ! j) = concat (map item (printed 190 0 (chunk_group b spc j)))"
        by auto
      have run: "chunk_loop b k spc c chunkCount chunks = Inr (chunks1, ?m)"
        using cond p(1) pos st(1) ih(1)
        by (subst chunk_loop.simps) (simp add: Let_def)
      have nc1: "nat (c + 1) = Suc (nat c)" using "1.prems"(7) by simp
      have keep: "\<forall>j < nat c. chunks1 ! j = chunks ! j"
        using ih(3) nc1 by (auto simp: nth_list_update)
      have here: "c_string (chunks1 ! nat c) = ?t"
        using ih(3) nc1 cl(1) cs by simp
      have rest: "\<forall>j. nat c \<le> j \<and> j < nat ?m \<longrightarrow>
            c_string (chunks1 ! j) = concat (map item (printed 190 0 (chunk_group b spc j)))"
      proof (intro allI impI)
        fix j assume j: "nat c \<le> j \<and> j < nat ?m"
        show "c_string (chunks1 ! j) = concat (map item (printed 190 0 (chunk_group b spc j)))"
        proof (cases "j = nat c")
          case True
          with here show ?thesis by simp
        next
          case False
          with j nc1 have "nat (c + 1) \<le> j \<and> j < nat ?m" by simp
          with ih(4) show ?thesis by blast
        qed
      qed
      from run ih(2) keep rest show ?thesis by auto
    qed
  qed
qed

lemma concat_groups:
  "concat (map (\<lambda>c. take s (drop (c * s) xs)) [0..<m]) = take (m * s) xs"
proof (induction m)
  case 0
  show ?case by simp
next
  case (Suc m)
  have "take (m * s + s) xs = take (m * s) xs @ take s (drop (m * s) xs)"
    by (rule take_add)
  with Suc show ?case by (simp add: add.commute)
qed

lemma groups_cover:
  assumes "0 \<le> (n::int)" "1 \<le> k" "k dvd n \<or> n \<le> k"
  shows "nat (min n k) * nat (max 1 (n div k)) = nat n"
proof (cases "n < k")
  case True
  with assms have "n div k = 0" by (simp add: div_pos_pos_trivial)
  with True show ?thesis by simp
next
  case False
  with assms have d: "k dvd n" by auto
  from assms False have "0 < n div k" by (subst pos_imp_zdiv_pos_iff) auto
  then have "max 1 (n div k) = n div k" by simp
  moreover have "k * (n div k) = n" using d by simp
  ultimately show ?thesis
    using False assms by (simp add: min_def nat_mult_distrib [symmetric])
qed

lemma getDataAsChunks_spec:
  assumes "wf_buffer b" "\<forall>v \<in> set (stored b). narrow v" "1 \<le> k"
    and "k \<le> int (length chunks)" "\<forall>j < nat k. length (chunks ! j) = 200"
  shows "\<exists>chunks1. getDataAsChunks b chunks k = Inr (chunks1, min (sampleCount b) k)
      \<and> length chunks1 = length chunks
      \<and> (\<forall>c < nat (min (sampleCount b) k).
            c_string (chunks1 ! c) =
              concat (map item (printed 190 0 (chunk_group b (max 1 (sampleCount b div k)) c))))"
proof -
  from assms(1) have n: "0 \<le> sampleCount b" by (simp add: wf_buffer_def)
  have spc: "samplesPerChunk_of (sampleCount b) k = Inr (max 1 (sampleCount b div k))"
    using n assms(3) by (rule samplesPerChunk_of_pos)
  have "0 = min 0 (min (sampleCount b) k)" using n assms(3) by simp
  from chunk_loop_spec [OF assms(1-3) refl assms(4,5) _ _ this] assms(3)
  show ?thesis by (auto simp: getDataAsChunks_def spc)
qed

text \<open>
  Where \<open>maxChunks\<close> divides the number of samples, or is at least that number, and no
  chunk reaches 190 characters, the chunks read back one after the other are the
  stored samples.
\<close>

lemma getDataAsChunks_complete_when_covered:
  assumes "wf_buffer b" "\<forall>v \<in> set (stored b). narrow v" "1 \<le> k"
    and "k \<le> int (length chunks)" "\<forall>j < nat k. length (chunks ! j) = 200"
    and "k dvd sampleCount b \<or> sampleCount b \<le> k"
    and "\<forall>c < nat (min (sampleCount b) k).
           printed 190 0 (chunk_group b (max 1 (sampleCount b div k)) c)
           = chunk_group b (max 1 (sampleCount b div k)) c"
  shows "\<exists>chunks1. getDataAsChunks b chunks k = Inr (chunks1, min (sampleCount b) k)
      \<and> concat (map (\<lambda>c. decode (c_string (chunks1 ! c)))
                  [0..<nat (min (sampleCount b) k)]) = stored b"
proof -
  let ?n = "sampleCount b"
  let ?m = "nat (min ?n k)"
  let ?spc = "max 1 (?n div k)"
  let ?g = "chunk_group b ?spc"
  from assms(1) have n: "0 \<le> ?n" by (simp add: wf_buffer_def)
  from getDataAsChunks_spec [OF assms(1-5)] obtain chunks1 where
    r: "getDataAsChunks b chunks k = Inr (chunks1, min ?n k)"
    and cs: "\<forall>c < ?m. c_string (chunks1 ! c) = concat (map item (printed 190 0 (?g c)))"
    by blast
  let ?d = "\<lambda>c. decode (c_string (chunks1 ! c))"
  have dec: "\<forall>c < ?m. ?d c = ?g c"
    using cs assms(7) by (simp add: decode_items)
  then have m: "map ?d [0..<?m] = map ?g [0..<?m]" by simp
  have "concat (map ?d [0..<?m]) = concat (map ?g [0..<?m])" by (simp only: m)
  also have "\<dots> = take (?m * nat ?spc) (stored b)"
    unfolding chunk_group_def by (rule concat_groups)
  also have "?m * nat ?spc = nat ?n" using groups_cover [OF n assms(3,6)] by simp
  also have "take (nat ?n) (stored b) = stored b"
    using length_stored [OF assms(1)] by simp
  finally have "concat (map ?d [0..<?m]) = stored b" .
  with r show ?thesis by blast
qed

section \<open>The scenario of 432 samples in two chunks\<close>

lemma addSamples_append:
  assumes "wf_buffer b" "currentIndex b + int (length vs) \<le> MAX_SAMPLES"
  shows "addSamples b vs =
           Inr (b\<lparr>samples := take (nat (currentIndex b)) (samples b) @ vs
                              @ drop (nat (currentIndex b) + length vs) (samples b),
                   currentIndex := currentIndex b + int (length vs),
                   sampleCount := currentIndex b + int (length vs)\<rparr>)"
  using assms
proof (induction vs arbitrary: b)
  case Nil
  then show ?case by (simp add: wf_buffer_def)
next
  case (Cons v vs)
  let ?c = "nat (currentIndex b)"
  let ?b1 = "b\<lparr>samples := (samples b)[?c := v], currentIndex := currentIndex b + 1,
               sampleCount := currentIndex b + 1\<rparr>"
  from Cons.prems have c: "0 \<le> currentIndex b" "?c < length (samples b)"
    "currentIndex b < MAX_SAMPLES"
    by (auto simp: wf_buffer_def MAX_SAMPLES_def)
  then have step: "addSample b v = Inr ((), ?b1)" by (simp add: addSample_def)
  from Cons.prems c have wf1: "wf_buffer ?b1" by (simp add: wf_buffer_def)
  from Cons.prems have le1: "currentIndex ?b1 + int (length vs) \<le> MAX_SAMPLES" by simp
  have tk: "take (Suc ?c) ((samples b)[?c := v]) = take ?c (samples b) @ [v]"
    using c(2) by (simp add: take_Suc_conv_app_nth)
  have nc: "nat (currentIndex b + 1) = Suc ?c" using c(1) by simp
  show ?case
    using Cons.IH [OF wf1 le1] step tk nc by (simp add: add.commute add.left_commute)
qed

lemma addSamples_cycle: "addSamples SensorBuffer (map word_of_int [0..431]) = Inr cycle_buffer"
proof -
  have "currentIndex SensorBuffer + int (length (map word_of_int [0..431] :: c_int list)) \<le> MAX_SAMPLES"
    by (simp add: SensorBuffer_def clear_def MAX_SAMPLES_def)
  from addSamples_append [OF wf_SensorBuffer this] show ?thesis
    by (simp add: SensorBuffer_def clear_def MAX_SAMPLES_def cycle_buffer_def)
qed

lemma sint_small: "- (2 ^ 31) \<le> i \<Longrightarrow> i < 2 ^ 31 \<Longrightarrow> sint (word_of_int i :: c_int) = i"
  by (simp add: sint_sbintrunc' signed_take_bit_int_eq_self)

lemma wf_cycle_buffer: "wf_buffer cycle_buffer"
  by (simp add: wf_buffer_def cycle_buffer_def MAX_SAMPLES_def)

lemma stored_cycle_buffer: "stored cycle_buffer = map word_of_int [0..431]"
  by (simp add: stored_def cycle_buffer_def)

lemma narrow_cycle_buffer: "\<forall>v \<in> set (stored cycle_buffer). narrow v"
  by (auto simp: stored_cycle_buffer narrow_def sint_small)

lemma two_rows_ok: "2 \<le> int (length two_rows)" "\<forall>j < nat 2. length (two_rows ! j) = 200"
  by (auto simp: two_rows_def nth_Cons' numeral_2_eq_2)

lemma cycle_groups:
  "printed 190 0 (chunk_group cycle_buffer 216 0) = map word_of_int [0..66]"
  "printed 190 0 (chunk_group cycle_buffer 216 1) = map word_of_int [216..263]"
  unfolding chunk_group_def stored_cycle_buffer by code_simp+

lemma cycle_chunks_decoded:
  "getDataAsChunks cycle_buffer two_rows 2 = Inr (cycle_chunks, 2)
   \<and> decode (c_string (cycle_chunks ! 0)) = map word_of_int [0..66]
   \<and> decode (c_string (cycle_chunks ! 1)) = map word_of_int [216..263]"
proof -
  have n: "sampleCount cycle_buffer = 432" by (simp add: cycle_buffer_def)
  from getDataAsChunks_spec [OF wf_cycle_buffer narrow_cycle_buffer _ two_rows_ok]
  obtain chunks1 where r: "getDataAsChunks cycle_buffer two_rows 2 = Inr (chunks1, 2)"
    and cs: "\<forall>c < 2. c_string (chunks1 ! c) =
               concat (map item (printed 190 0 (chunk_group cycle_buffer 216 c)))"
    by (auto simp: n)
  from r have eq: "cycle_chunks = chunks1" by (simp add: cycle_chunks_def chunks_of_def)
  from cs have "c_string (chunks1 ! 0) =
      concat (map item (printed 190 0 (chunk_group cycle_buffer 216 0)))" by simp
  then have d0: "decode (c_string (chunks1 ! 0)) = map word_of_int [0..66]"
    by (simp only: decode_items cycle_groups)
  from cs have "c_string (chunks1 ! 1) =
      concat (map item (printed 190 0 (chunk_group cycle_buffer 216 1)))" by simp
  then have d1: "decode (c_string (chunks1 ! 1)) = map word_of_int [216..263]"
    by (simp only: decode_items cycle_groups)
  from r d0 d1 show ?thesis unfolding eq by blast
qed

lemma stored_five_buffer: "stored five_buffer = [10, 20, 30, 40, 50]"
  by (simp add: stored_def five_buffer_def)

lemma narrow_five_buffer: "\<forall>v \<in> set (stored five_buffer). narrow v"
  by (simp add: stored_five_buffer narrow_def)

lemma five_groups:
  "printed 190 0 (chunk_group five_buffer 2 0) = [10, 20]"
  "printed 190 0 (chunk_group five_buffer 2 1) = [30, 40]"
  unfolding chunk_group_def stored_five_buffer by code_simp+

lemma addSamples_five: "addSamples SensorBuffer [10, 20, 30, 40, 50] = Inr five_buffer"
proof -
  have "currentIndex SensorBuffer + int (length [10, 20, 30, 40, 50 :: c_int]) \<le> MAX_SAMPLES"
    by (simp add: SensorBuffer_def clear_def MAX_SAMPLES_def)
  from addSamples_append [OF wf_SensorBuffer this] show ?thesis
    by (simp add: SensorBuffer_def clear_def MAX_SAMPLES_def five_buffer_def)
qed

lemma five_texts:
  "concat (map item [10, 20]) = ''10 20 ''"
  "concat (map item [30, 40]) = ''30 40 ''"
  by (simp_all add: item_def fmt_d_def digits.simps digit_char_def)

lemma five_chunks_texts:
  "getDataAsChunks five_buffer two_rows 2 = Inr (five_chunks, 2)
   \<and> c_string (five_chunks ! 0) = ''10 20 ''
   \<and> c_string (five_chunks ! 1) = ''30 40 ''"
proof -
  have n: "sampleCount five_buffer = 5" by (simp add: five_buffer_def)
  from getDataAsChunks_spec [OF wf_five_buffer narrow_five_buffer _ two_rows_ok]
  obtain chunks1 where r: "getDataAsChunks five_buffer two_rows 2 = Inr (chunks1, 2)"
    and cs: "\<forall>c < 2. c_string (chunks1 ! c) =
               concat (map item (printed 190 0 (chunk_group five_buffer 2 c)))"
    by (auto simp: n)
  from r have eq: "five_chunks = chunks1" by (simp add: five_chunks_def chunks_of_def)
  from cs have "c_string (chunks1 ! 0) =
      concat (map item (printed 190 0 (chunk_group five_buffer 2 0)))" by simp
  then have d0: "c_string (chunks1 ! 0) = ''10 20 ''"
    by (simp only: five_groups five_texts)
  from cs have "c_string (chunks1 ! 1) =
      concat (map item (printed 190 0 (chunk_group five_buffer 2 1)))" by simp
  then have d1: "c_string (chunks1 ! 1) = ''30 40 ''"
    by (simp only: five_groups five_texts)
  from r d0 d1 show ?thesis unfolding eq by blast
qed

text \<open>
  Claim C1 fails on the code. Five samples 10, 20, 30, 40, 50 in two chunks: the
  number of samples per chunk is \<open>5 / 2 = 2\<close>, chunk 0 holds \<open>10 20\<close>, chunk 1 holds
  \<open>30 40\<close>, and the sample 50 is in no chunk: the last chunk does not take the
  remainder, and the chunks read back one after the other are not the stored samples.
\<close>

theorem getDataAsChunks_loses_remainder:
  "addSamples SensorBuffer [10, 20, 30, 40, 50] = Inr five_buffer
   \<and> stored five_buffer = [10, 20, 30, 40, 50]
   \<and> getDataAsChunks five_buffer two_rows 2 = Inr (five_chunks, 2)
   \<and> c_string (five_chunks ! 0) = ''10 20 ''
   \<and> c_string (five_chunks ! 1) = ''30 40 ''
   \<and> decode (c_string (five_chunks ! 0)) @ decode (c_string (five_chunks ! 1))
       = [10, 20, 30, 40]"
proof -
  have "decode (concat (map item [10, 20])) = [10, 20]"
    "decode (concat (map item [30, 40])) = [30, 40]"
    by (rule decode_items)+
  then have "decode ''10 20 '' = [10, 20]" "decode ''30 40 '' = [30, 40]"
    by (simp_all only: five_texts)
  with addSamples_five stored_five_buffer five_chunks_texts show ?thesis by simp
qed

text \<open>
  Claim C2, amended. On a new buffer into which the 432 values 0, ..., 431 were added
  in order, \<open>getDataAsChunks\<close> with \<open>maxChunks = 2\<close> gives two chunks; chunk 0 reads back
  as the 67 samples 0, ..., 66 and chunk 1 as the 48 samples 216, ..., 263: each chunk
  ends once 190 characters are written.
\<close>

theorem cycle_chunks_cut_at_190:
  "addSamples SensorBuffer (map word_of_int [0..431]) = Inr cycle_buffer
   \<and> getDataAsChunks cycle_buffer two_rows 2 = Inr (cycle_chunks, 2)
   \<and> decode (c_string (cycle_chunks ! 0)) = map word_of_int [0..66]
   \<and> decode (c_string (cycle_chunks ! 1)) = map word_of_int [216..263]"
  using addSamples_cycle cycle_chunks_decoded by simp

text \<open>
  In that scenario chunk 0 is not the 216 samples 0, ..., 215 and chunk 1 is not the 216
  samples 216, ..., 431.
\<close>

theorem cycle_chunks_not_216_each:
  "getDataAsChunks cycle_buffer two_rows 2 = Inr (cycle_chunks, 2)
   \<and> decode (c_string (cycle_chunks ! 0)) \<noteq> map word_of_int [0..215]
   \<and> decode (c_string (cycle_chunks ! 1)) \<noteq> map word_of_int [216..431]
   \<and> length (decode (c_string (cycle_chunks ! 0))) = 67
   \<and> length (decode (c_string (cycle_chunks ! 1))) = 48"
proof -
  have "length (map word_of_int [0..66] :: c_int list) \<noteq> length (map word_of_int [0..215] :: c_int list)"
    by simp
  then have a: "(map word_of_int [0..66] :: c_int list) \<noteq> map word_of_int [0..215]" by metis
  have "length (map word_of_int [216..263] :: c_int list) \<noteq> length (map word_of_int [216..431] :: c_int list)"
    by simp
  then have b: "(map word_of_int [216..263] :: c_int list) \<noteq> map word_of_int [216..431]" by metis
  from a b cycle_chunks_decoded show ?thesis by simp
qed

section \<open>Samples wider than 10 characters\<close>

lemma item_INT_MIN: "item (- 2147483648) = ''-2147483648 ''"
  by (simp add: item_def fmt_d_def digits.simps digit_char_def)

lemma snprintf_d_bounded:
  assumes "0 \<le> pos" "0 < sz" "sz < 2 ^ 32" "nat pos + nat sz \<le> length buf"
  shows "\<exists>b1. snprintf_d buf pos sz v = Inr (b1, int (length (item v)))
           \<and> length b1 = length buf"
proof -
  from assms have n: "size_t sz = nat sz" "size_t sz \<noteq> 0" by (simp_all add: size_t_def)
  let ?out = "take (size_t sz - 1) (item v) @ [NUL]"
  from assms n have "nat pos + length ?out \<le> length buf" by simp
  from store_Inr [OF assms(1) this] n show ?thesis
    by (auto simp: snprintf_d_def Let_def)
qed

lemma print_samples_step:
  assumes "i < e" "pos < limit" "0 \<le> i" "nat i < length smp" "0 \<le> pos"
    and "pos < cap" "cap < 2 ^ 32" "nat cap \<le> length buf"
  shows "\<exists>b1. length b1 = length buf
           \<and> print_samples smp e limit cap i pos buf =
               print_samples smp e limit cap (i + 1)
                 (pos + int (length (item (smp ! nat i)))) b1"
proof -
  from assms have sa: "sample_at smp i = Inr (smp ! nat i)" by (simp add: sample_at_def)
  from assms have "0 < cap - pos" "cap - pos < 2 ^ 32" "nat pos + nat (cap - pos) \<le> length buf"
    by auto
  from snprintf_d_bounded [OF assms(5) this, of "smp ! nat i"] obtain b1 where
    b1: "snprintf_d buf pos (cap - pos) (smp ! nat i) = Inr (b1, int (length (item (smp ! nat i))))"
      "length b1 = length buf" by blast
  have "0 < int (length (item (smp ! nat i)))" using length_item_pos [of "smp ! nat i"] by linarith
  with assms(1,2) sa b1 show ?thesis
    by (subst print_samples.simps) auto
qed

lemma print_samples_run:
  assumes "\<forall>j. i \<le> j \<and> j < i + int m \<longrightarrow> length (item (smp ! nat j)) = L"
    and "0 \<le> i" "i + int m \<le> e" "e \<le> int (length smp)" "0 \<le> pos"
    and "pos + int L * int m < limit + int L" "limit < cap" "cap < 2 ^ 32"
    and "nat cap \<le> length buf" "0 < L"
  shows "\<exists>b1. length b1 = length buf
           \<and> print_samples smp e limit cap i pos buf =
               print_samples smp e limit cap (i + int m) (pos + int L * int m) b1"
  using assms
proof (induction m arbitrary: i pos buf)
  case 0
  have "print_samples smp e limit cap i pos buf = print_samples smp e limit cap i pos buf" ..
  then show ?case by auto
next
  case (Suc m)
  from Suc.prems have L: "length (item (smp ! nat i)) = L" by simp
  from Suc.prems have "pos + int L * int m < limit" by (simp add: algebra_simps)
  moreover have "0 \<le> int L * int m" by simp
  ultimately have pl: "pos < limit" by linarith
  from Suc.prems pl have "i < e" "nat i < length smp" "pos < cap" by auto
  from print_samples_step [OF this(1) pl Suc.prems(2) this(2) Suc.prems(5) this(3)
      Suc.prems(8,9)] L
  obtain b1 where b1: "length b1 = length buf"
    "print_samples smp e limit cap i pos buf = print_samples smp e limit cap (i + 1) (pos + int L) b1"
    by auto
  have "\<exists>b2. length b2 = length b1
           \<and> print_samples smp e limit cap (i + 1) (pos + int L) b1 =
               print_samples smp e limit cap (i + 1 + int m) (pos + int L + int L * int m) b2"
    using Suc.prems b1(1) by (intro Suc.IH) (auto simp: algebra_simps)
  with b1 show ?case by (auto simp: algebra_simps)
qed

lemma item_1234567: "length (item 1234567) = 8"
  by (simp add: item_def fmt_d_def digits.simps digit_char_def)

lemma item_INT_MIN_length: "length (item (- 2147483648)) = 12"
  by (simp add: item_INT_MIN)

text \<open>
  A sample of 8 characters and 16 samples of 12 characters in one chunk: the last
  text is written at position 188, \<open>pos\<close> becomes 200, and the terminator of the chunk
  is stored past the end of the row.
\<close>

lemma getDataAsChunks_wide_overflow:
  "getDataAsChunks wide17_buffer [replicate 200 NUL] 1 = Inl OutOfBounds"
proof -
  let ?smp = "samples wide17_buffer"
  let ?row = "replicate 200 NUL"
  have len: "length ?smp = 500" by (simp add: wide17_buffer_def)
  have s0: "?smp ! nat 0 = 1234567" by (simp add: wide17_buffer_def)
  have sj: "\<forall>j. 1 \<le> j \<and> j < 1 + int 16 \<longrightarrow> length (item (?smp ! nat j)) = 12"
  proof (intro allI impI)
    fix j :: int assume j: "1 \<le> j \<and> j < 1 + int 16"
    then have "nat j - 1 < 16" "nat j \<noteq> 0" by auto
    then have "?smp ! nat j = - 2147483648"
      by (simp add: wide17_buffer_def nth_Cons' nth_append)
    then show "length (item (?smp ! nat j)) = 12" by (simp add: item_INT_MIN_length)
  qed
  from print_samples_step [of 0 17 0 190 ?smp 200 ?row] len s0 item_1234567
  obtain b1 where b1: "length b1 = 200"
    "print_samples ?smp 17 190 200 0 0 ?row = print_samples ?smp 17 190 200 1 8 b1"
    by auto
  from print_samples_run [OF sj, of 17 8 190 200 b1] len b1(1)
  obtain b2 where b2: "length b2 = 200"
    "print_samples ?smp 17 190 200 1 8 b1 = print_samples ?smp 17 190 200 17 200 b2"
    by auto
  have "print_samples ?smp 17 190 200 17 200 b2 = Inr (200, b2)"
    by (subst print_samples.simps) simp
  with b1 b2 have p: "print_samples ?smp 17 190 200 0 0 ?row = Inr (200, b2)" by simp
  have st: "store b2 200 [NUL] = Inl OutOfBounds" using b2(1) by (simp add: store_def)
  have "chunk_loop wide17_buffer 1 17 0 0 [?row] = Inl OutOfBounds"
    using p st by (subst chunk_loop.simps) (simp add: wide17_buffer_def row_of_def Let_def)
  moreover have "samplesPerChunk_of (sampleCount wide17_buffer) 1 = Inr 17"
    by (simp add: samplesPerChunk_of_def c_div_def wide17_buffer_def)
  ultimately show ?thesis by (simp add: getDataAsChunks_def)
qed

section \<open>getDataAsString\<close>

lemma addSample_wide: "addSample SensorBuffer (- 2147483648) = Inr ((), wide_buffer)"
  by (simp add: addSample_def SensorBuffer_def clear_def MAX_SAMPLES_def wide_buffer_def)

text \<open>
  Claim C5 fails on the code. With the single sample \<open>INT_MIN\<close> and a destination of
  \<open>maxLength = 11\<close> bytes, \<open>snprintf\<close> stores ten characters and a terminator and returns
  12, the length of the whole text; \<open>pos\<close> becomes 12 and the final terminator is
  stored at index 12, outside the destination.
\<close>

theorem getDataAsString_overflows:
  "addSample SensorBuffer (- 2147483648) = Inr ((), wide_buffer)
   \<and> print_samples (samples wide_buffer) (sampleCount wide_buffer) (11 - 10) 11 0 0
        (replicate 11 NUL) = Inr (12, ''-214748364'' @ [NUL])
   \<and> getDataAsString wide_buffer (replicate 11 NUL) 11 = Inl OutOfBounds"
proof -
  have sn: "snprintf_d (replicate 11 NUL) 0 11 (- 2147483648) = Inr (''-214748364'' @ [NUL], 12)"
    by (simp add: snprintf_d_def item_INT_MIN size_t_def store_def Let_def)
  have p: "print_samples (samples wide_buffer) (sampleCount wide_buffer) (11 - 10) 11 0 0
        (replicate 11 NUL) = Inr (12, ''-214748364'' @ [NUL])"
    by (simp add: print_samples.simps wide_buffer_def sample_at_def sn)
  then have "getDataAsString wide_buffer (replicate 11 NUL) 11 = Inl OutOfBounds"
    by (simp add: getDataAsString_def store_def)
  with p addSample_wide show ?thesis by simp
qed

text \<open>
  With samples between -99999999 and 999999999 no text is longer than the 10 bytes
  that the loop keeps free, and \<open>getDataAsString\<close> stays inside the destination.
\<close>

lemma getDataAsString_narrow:
  assumes "wf_buffer b" "\<forall>v \<in> set (stored b). narrow v" "1 \<le> maxLength"
    and "maxLength < 2 ^ 31" "int (length buffer) = maxLength"
  shows "\<exists>buf1. getDataAsString b buffer maxLength = Inr buf1
           \<and> length buf1 = length buffer
           \<and> c_string buf1 = concat (map item (printed (maxLength - 10) 0 (stored b)))
           \<and> length (c_string buf1) \<le> nat (maxLength - 1)"
proof -
  let ?ws = "printed (maxLength - 10) 0 (stored b)"
  let ?t = "concat (map item ?ws)"
  from assms(1) have n: "0 \<le> sampleCount b" "sampleCount b \<le> int (length (samples b))"
    by (simp_all add: wf_buffer_def MAX_SAMPLES_def)
  have sl: "slice (samples b) 0 (sampleCount b) = stored b"
    by (simp add: slice_def stored_def)
  from assms have "\<forall>v \<in> set (slice (samples b) 0 (sampleCount b)). narrow v"
    by (simp add: sl)
  from print_samples_spec [of 0 "sampleCount b" "samples b" 0 "maxLength - 10" maxLength buffer,
      OF _ n(2) _ _ _ _ this, unfolded sl] assms
  obtain buf1 where p:
    "print_samples (samples b) (sampleCount b) (maxLength - 10) maxLength 0 0 buffer
       = Inr (int (length ?t), buf1)"
    "length buf1 = length buffer"
    "take (length ?t) buf1 = ?t"
    "?ws = [] \<longrightarrow> buf1 = buffer"
    "?ws \<noteq> [] \<longrightarrow> buf1 ! length ?t = NUL \<and> length ?t < length buf1"
    by auto
  have lt: "length ?t < length buf1"
  proof (cases "?ws = []")
    case True
    with assms p(2) show ?thesis by (cases buffer) auto
  next
    case False
    with p(5) show ?thesis by simp
  qed
  then have "nat (int (length ?t)) + length [NUL] \<le> length buf1" by simp
  from store_Inr [OF _ this] obtain buf2 where
    st: "store buf1 (int (length ?t)) [NUL] = Inr buf2" "length buf2 = length buf1"
    "take (length ?t + 1) buf2 = take (length ?t) buf1 @ [NUL]"
    by auto
  have tk2: "take (length ?t) buf2 = ?t"
  proof -
    have "take (length ?t) buf2 = take (length ?t) (take (length ?t + 1) buf2)" by simp
    also have "\<dots> = take (length ?t) buf1" using lt by (simp only: st(3)) simp
    also have "\<dots> = ?t" using p(3) by simp
    finally show ?thesis .
  qed
  have nul2: "buf2 ! length ?t = NUL"
  proof -
    have "buf2 ! length ?t = take (length ?t + 1) buf2 ! length ?t" by simp
    also have "\<dots> = NUL" using lt by (simp only: st(3)) (simp add: nth_append)
    finally show ?thesis .
  qed
  have cs: "c_string buf2 = ?t"
    using tk2 lt st(2) nul2 NUL_notin_items by (intro c_string_row) auto
  have "length ?t \<le> nat (maxLength - 1)" using lt p(2) assms(5) by linarith
  moreover have "\<not> maxLength - 10 < - (2 ^ 31)" using assms(3) by simp
  ultimately show ?thesis
    using p(1) st(1,2) p(2) cs by (simp add: getDataAsString_def)
qed

end
